theory Spec2Isabelle
  imports Complex_Main "HOL-Library.Sublist"
begin

section \<open>Python values used by the synthesis code\<close>

text \<open>
  The exceptions the synthesis functions of \<^verbatim>\<open>qsp_select_v.py\<close> can raise on
  well-typed arguments are Python's \<^verbatim>\<open>IndexError\<close> (an index into a list that is too
  short) and \<^verbatim>\<open>RecursionError\<close> (a call when the stack of the interpreter is full). A
  function that can raise returns \<open>error + 'a\<close>, with \<open>Inl\<close> for the exception.
\<close>

datatype error = IndexError | RecursionError

text \<open>
  The interpreter refuses a call once its stack holds as many frames as the recursion
  limit, which is 1000 unless \<^verbatim>\<open>sys.setrecursionlimit\<close> has changed it. The functions of
  the module that call themselves (\<^verbatim>\<open>incBT\<close>, \<^verbatim>\<open>walkDown_helper\<close>, \<^verbatim>\<open>stepRight\<close>,
  \<^verbatim>\<open>applyAndStep_helper\<close>) and the functions between them and the caller take as first
  argument the number \<open>d\<close> of frames that the stack has room for at the call: the call
  raises \<^verbatim>\<open>RecursionError\<close> when \<open>d\<close> is 0, takes one frame otherwise, and leaves
  \<open>d - 1\<close> to the calls it makes. With the default limit \<open>d\<close> is below 1000, since the
  caller has frames of its own.

  Only the frames of these functions are counted. \<^verbatim>\<open>incrementBooleanTree\<close> and \<^verbatim>\<open>incBT\<close>
  call nothing else but builtins, which take no frame, so for them the count is exact.
  The other functions also make calls that lead to no recursion (\<^verbatim>\<open>toffoli\<close>, \<^verbatim>\<open>myTof\<close>,
  \<^verbatim>\<open>h_distance\<close>, the constructors and methods of \<^verbatim>\<open>cirq\<close>), which need a fixed number
  of frames on top. So the code raises \<^verbatim>\<open>RecursionError\<close> wherever these functions do
  with \<open>d\<close> the frames really left, and where they return, the code returns the same
  result once that fixed number of frames is left besides \<open>d\<close>. The loops of \<^verbatim>\<open>qrom\<close>
  make no nested calls of their own and have no such argument.
\<close>

text \<open>
  An index \<^verbatim>\<open>xs[i]\<close> with \<open>i\<close> not negative is written with its bound: \<open>xs ! i\<close> where
  \<open>i < length xs\<close>, the exception otherwise. An index from the end,
  \<^verbatim>\<open>xs[nth2last(n)]\<close>, that is \<^verbatim>\<open>xs[-(n+1)]\<close>, is the element \<open>n\<close> places before the last.
\<close>

definition nth2last :: "'a list \<Rightarrow> nat \<Rightarrow> error + 'a" where
  "nth2last xs n = (if n < length xs then Inr (xs ! (length xs - 1 - n)) else Inl IndexError)"

text \<open>
  Python's builtin \<^verbatim>\<open>bin\<close>: the binary numeral of an integer, most significant digit
  first, after the prefix \<^verbatim>\<open>0b\<close> (\<^verbatim>\<open>-0b\<close> for a negative number); zero is \<^verbatim>\<open>0b0\<close>.
\<close>

fun bin_digits :: "nat \<Rightarrow> string" where
  "bin_digits n =
     (if n < 2 then [if n = 1 then CHR ''1'' else CHR ''0'']
      else bin_digits (n div 2) @ [if n mod 2 = 1 then CHR ''1'' else CHR ''0''])"

declare bin_digits.simps [simp del]

definition bin :: "int \<Rightarrow> string" where
  "bin n = (if n < 0 then ''-0b'' @ bin_digits (nat (- n)) else ''0b'' @ bin_digits (nat n))"

section \<open>AddressCodec: boolean trees\<close>

text \<open>
  \<^verbatim>\<open>constructBooleanTree(n, m)\<close>: the digits of \<^verbatim>\<open>bin(n)[2:]\<close>, preceded by
  \<^verbatim>\<open>m - len(n)\<close> zeros (none when that number is negative), each digit compared
  with the character 1.
\<close>

definition constructBooleanTree :: "int \<Rightarrow> nat \<Rightarrow> bool list" where
  "constructBooleanTree n m =
     (let n = drop 2 (bin n);
          value = replicate (m - length n) (CHR ''0'') @ n
      in map (\<lambda>v. if v = CHR ''1'' then True else False) value)"

text \<open>
  The local function \<^verbatim>\<open>incBT\<close> of \<^verbatim>\<open>incrementBooleanTree\<close>. It reads \<^verbatim>\<open>m[0]\<close> first,
  which raises on the empty list; the slice \<^verbatim>\<open>m[1::]\<close> and the concatenations build
  new lists. It calls itself once for every True at the head of its argument, so the
  first argument, the room left on the stack, is one less at each call.
\<close>

fun incBT :: "nat \<Rightarrow> bool list \<Rightarrow> error + bool list" where
  "incBT 0 m = Inl RecursionError"
| "incBT (Suc d) [] = Inl IndexError"
| "incBT (Suc d) (h # m) =
     (if h = False then Inr ([True] @ m)
      else (case incBT d m of Inl e \<Rightarrow> Inl e | Inr r \<Rightarrow> Inr ([False] @ r)))"

text \<open>
  \<^verbatim>\<open>incrementBooleanTree\<close> on list values: copy, reverse, \<^verbatim>\<open>incBT\<close>, reverse. The
  methods \<^verbatim>\<open>copy\<close> and \<^verbatim>\<open>reverse\<close> of a list are builtins, which take no frame.
\<close>

definition incrementBooleanTree :: "nat \<Rightarrow> bool list \<Rightarrow> error + bool list" where
  "incrementBooleanTree d n =
     (case d of
        0 \<Rightarrow> Inl RecursionError
      | Suc d \<Rightarrow> (case incBT d (rev n) of Inl e \<Rightarrow> Inl e | Inr r \<Rightarrow> Inr (rev r)))"

text \<open>
  The same function over a store of list objects, to see what it mutates. A list object
  is an address into the store; \<^verbatim>\<open>n.copy()\<close> and the result of \<^verbatim>\<open>incBT\<close> are new objects,
  and both calls of \<^verbatim>\<open>reverse()\<close> work in place on the object that the local variable
  \<^verbatim>\<open>n\<close> names at that point. The function returns the address of its result (or the
  exception) and the store it leaves behind.
\<close>

type_synonym store = "bool list list"

definition alloc :: "bool list \<Rightarrow> store \<Rightarrow> nat \<times> store" where
  "alloc xs h = (length h, h @ [xs])"

definition reverse_in_place :: "nat \<Rightarrow> store \<Rightarrow> store" where
  "reverse_in_place a h = h[a := rev (h ! a)]"

definition incrementBooleanTree_store ::
  "nat \<Rightarrow> nat \<Rightarrow> store \<Rightarrow> (error + nat) \<times> store" where
  "incrementBooleanTree_store d n h =
     (case d of
        0 \<Rightarrow> (Inl RecursionError, h)
      | Suc d \<Rightarrow>
          (let (n1, h1) = alloc (h ! n) h;
               h2 = reverse_in_place n1 h1
           in case incBT d (h2 ! n1) of
                Inl e \<Rightarrow> (Inl e, h2)
              | Inr r \<Rightarrow>
                  (let (n2, h3) = alloc r h2;
                       h4 = reverse_in_place n2 h3
                   in (Inr n2, h4))))"

text \<open>\<^verbatim>\<open>h_distance\<close>, the local function of \<^verbatim>\<open>stepRight\<close>.\<close>

definition h_distance :: "bool list \<Rightarrow> bool list \<Rightarrow> nat" where
  "h_distance val1 val2 = sum_list (map (\<lambda>(v1, v2). if v1 = v2 then 0 else 1) (zip val1 val2))"

text \<open>
  Reference notions for the codec, which the source has no function for: the \<open>w\<close> low
  bits of \<open>k\<close>, most significant first, and the number that a bit vector denotes when
  read most significant bit first (the decoding that the specification speaks of).
\<close>

definition msb_first_bits :: "nat \<Rightarrow> nat \<Rightarrow> bool list" where
  "msb_first_bits w k = map (\<lambda>i. (k div 2 ^ i) mod 2 = 1) (rev [0..<w])"

definition decode :: "bool list \<Rightarrow> nat" where
  "decode bs = foldl (\<lambda>acc b. 2 * acc + (if b then 1 else 0)) 0 bs"

section \<open>Instructions and circuits\<close>

text \<open>
  The gates the module builds with cirq, over an arbitrary type \<open>'q\<close> of qubits:
  \<^verbatim>\<open>cirq.X.on(q)\<close>, \<^verbatim>\<open>cirq.CX.on(c, t)\<close>, \<^verbatim>\<open>cirq.X(t).controlled_by(c0, c1)\<close>,
  \<^verbatim>\<open>cirq.Z.on(q)\<close>, \<^verbatim>\<open>cirq.CZ.on(c, t)\<close>, \<^verbatim>\<open>cirq.S.on(q)\<close> and its inverse.
\<close>

datatype 'q gate =
    X 'q
  | CX 'q 'q
  | CCX 'q 'q 'q
  | Z 'q
  | CZ 'q 'q
  | S 'q
  | S_inv 'q

text \<open>
  The synthesizers treat a payload operator as opaque: they call \<^verbatim>\<open>ops[..](ctrl, targets)\<close>
  and append what it returns. A circuit is therefore a list of instructions, each either
  a gate or the block \<open>Apply p ctrl targets\<close> that operator \<open>p\<close> emits for the activation
  bit \<open>ctrl\<close> and the target register. \<^verbatim>\<open>circuit.append\<close> keeps the relative order of all
  operations that share a qubit, so a list in order of appending has the circuit's effect.
\<close>

datatype ('p, 'q) instr =
    Gate "'q gate"
  | Apply 'p 'q "'q list"

text \<open>\<^verbatim>\<open>cirq.inverse\<close> of a list of gates: the inverse gates in reverse order.\<close>

fun inverse_gate :: "'q gate \<Rightarrow> 'q gate" where
  "inverse_gate (X q) = X q"
| "inverse_gate (CX c t) = CX c t"
| "inverse_gate (CCX c0 c1 t) = CCX c0 c1 t"
| "inverse_gate (Z q) = Z q"
| "inverse_gate (CZ c t) = CZ c t"
| "inverse_gate (S q) = S_inv q"
| "inverse_gate (S_inv q) = S q"

definition inverse :: "'q gate list \<Rightarrow> 'q gate list" where
  "inverse circuit = rev (map inverse_gate circuit)"

section \<open>ConditionalPrimitive\<close>

definition toffoli :: "bool \<Rightarrow> bool \<Rightarrow> 'q \<Rightarrow> 'q \<Rightarrow> 'q \<Rightarrow> 'q gate list" where
  "toffoli b0 b1 ctl0 ctl1 trgt =
     (let basis_change = (if \<not> b0 then [X ctl0] else []) @ (if \<not> b1 then [X ctl1] else []);
          cnX = CCX ctl0 ctl1 trgt
      in basis_change @ [cnX] @ rev basis_change)"

section \<open>TreeSynthesizer\<close>

text \<open>
  \<^verbatim>\<open>walkDown_helper\<close> reads \<^verbatim>\<open>bt[0]\<close>, \<^verbatim>\<open>qbt[0]\<close>, \<^verbatim>\<open>anc[0]\<close> and \<^verbatim>\<open>anc[1]\<close> and
  recurses on the three tails: one call for every bit of \<^verbatim>\<open>bt\<close>, and the last one on
  the empty list.
\<close>

fun walkDown_helper ::
  "nat \<Rightarrow> 'q gate list \<Rightarrow> bool list \<Rightarrow> 'q list \<Rightarrow> 'q list \<Rightarrow> error + 'q gate list" where
  "walkDown_helper 0 myc bt qbt anc = Inl RecursionError"
| "walkDown_helper (Suc d) myc [] qbt anc = Inr myc"
| "walkDown_helper (Suc d) myc (b # bt) (q # qbt) (a0 # a1 # anc) =
     walkDown_helper d (myc @ toffoli b True q a0 a1) bt qbt (a1 # anc)"
| "walkDown_helper (Suc d) myc (b # bt) qbt anc = Inl IndexError"

definition walkDown ::
  "nat \<Rightarrow> bool list \<Rightarrow> 'q list \<Rightarrow> 'q list \<Rightarrow> error + 'q gate list" where
  "walkDown d bTree qubits ancilla =
     (case d of
        0 \<Rightarrow> Inl RecursionError
      | Suc d \<Rightarrow>
          (if 1 < length bTree \<and> 1 < length qubits \<and> 0 < length ancilla
           then walkDown_helper d
                  (toffoli (bTree ! 0) (bTree ! 1) (qubits ! 0) (qubits ! 1) (ancilla ! 0))
                  (drop 2 bTree) (drop 2 qubits) ancilla
           else Inl IndexError))"

text \<open>
  \<^verbatim>\<open>stepRight\<close>. The indices \<^verbatim>\<open>nth2last(0)\<close>, \<^verbatim>\<open>nth2last(1)\<close>, \<^verbatim>\<open>nth2last(2)\<close> are
  \<open>-1\<close>, \<open>-2\<close>, \<open>-3\<close>; the slices \<^verbatim>\<open>[0:-1]\<close> drop the last element. The call of
  \<^verbatim>\<open>incrementBooleanTree\<close> and the recursive call are made from the frame of
  \<^verbatim>\<open>stepRight\<close>.
\<close>

fun stepRight ::
  "nat \<Rightarrow> ('p, 'q) instr list \<Rightarrow> bool list \<Rightarrow> 'q list \<Rightarrow> 'q list
    \<Rightarrow> error + ('p, 'q) instr list" where
  "stepRight 0 circuit bTree qubits ancilla = Inl RecursionError"
| "stepRight (Suc d) circuit bTree qubits ancilla =
     (case incrementBooleanTree d bTree of
        Inl e \<Rightarrow> Inl e
      | Inr inc \<Rightarrow>
          (let distance = h_distance bTree inc;
               n_anc = length ancilla
           in if distance = 0 then Inr circuit
              else if distance = 1 then
                (if n_anc = 1 then
                   (case nth2last ancilla 0 of Inl e \<Rightarrow> Inl e | Inr q0 \<Rightarrow>
                      Inr (circuit @ [Gate (X q0)]))
                 else
                   (case nth2last ancilla 0 of Inl e \<Rightarrow> Inl e | Inr q0 \<Rightarrow>
                    case nth2last ancilla 1 of Inl e \<Rightarrow> Inl e | Inr q1 \<Rightarrow>
                      Inr (circuit @ [Gate (CX q1 q0)])))
              else if distance = 2 then
                (if n_anc = 2 then
                   (case nth2last ancilla 0 of Inl e \<Rightarrow> Inl e | Inr q0 \<Rightarrow>
                    case nth2last ancilla 1 of Inl e \<Rightarrow> Inl e | Inr q1 \<Rightarrow>
                    case nth2last qubits 0 of Inl e \<Rightarrow> Inl e | Inr x0 \<Rightarrow>
                      Inr (circuit @ [Gate (CX q1 q0)] @ [Gate (CX x0 q0)]
                             @ [Gate (X q1)] @ [Gate (X q0)]))
                 else
                   (case nth2last ancilla 0 of Inl e \<Rightarrow> Inl e | Inr q0 \<Rightarrow>
                    case nth2last ancilla 1 of Inl e \<Rightarrow> Inl e | Inr q1 \<Rightarrow>
                    case nth2last ancilla 2 of Inl e \<Rightarrow> Inl e | Inr q2 \<Rightarrow>
                    case nth2last qubits 0 of Inl e \<Rightarrow> Inl e | Inr x0 \<Rightarrow>
                      Inr (circuit @ [Gate (CX q1 q0)]
                             @ map Gate (toffoli True False q2 x0 q0)
                             @ [Gate (CX q2 q1)])))
              else
                (case nth2last qubits 0 of Inl e \<Rightarrow> Inl e | Inr x0 \<Rightarrow>
                 case nth2last ancilla 0 of Inl e \<Rightarrow> Inl e | Inr q0 \<Rightarrow>
                 case nth2last ancilla 1 of Inl e \<Rightarrow> Inl e | Inr q1 \<Rightarrow>
                   (let qubits2 = butlast qubits;
                        ancilla2 = butlast ancilla;
                        m_bTree = butlast bTree
                    in case stepRight d (circuit @ map Gate (toffoli True True q1 x0 q0))
                              m_bTree qubits2 ancilla2 of
                         Inl e \<Rightarrow> Inl e
                       | Inr circuit' \<Rightarrow>
                           Inr (circuit' @ map Gate (toffoli True False q1 x0 q0))))))"

declare stepRight.simps [simp del]

text \<open>
  \<^verbatim>\<open>applyAndStep_helper\<close>: both branches read \<^verbatim>\<open>ops[0]\<close> and \<^verbatim>\<open>anc[-1]\<close> first; the
  recursive call is on \<^verbatim>\<open>ops[1::]\<close>. There is no loop over the keys: the function calls
  itself once for every key after the first, from the frame of the key before.
\<close>

fun applyAndStep_helper ::
  "nat \<Rightarrow> ('p, 'q) instr list \<Rightarrow> 'p list \<Rightarrow> bool list \<Rightarrow> bool list \<Rightarrow> 'q list \<Rightarrow> 'q list
    \<Rightarrow> 'q list \<Rightarrow> error + ('p, 'q) instr list" where
  "applyAndStep_helper 0 myc ops sbT ebT qbs anc tgt = Inl RecursionError"
| "applyAndStep_helper (Suc d) myc [] sbT ebT qbs anc tgt = Inl IndexError"
| "applyAndStep_helper (Suc d) myc (op # ops) sbT ebT qbs anc tgt =
     (case nth2last anc 0 of
        Inl e \<Rightarrow> Inl e
      | Inr a \<Rightarrow>
          if sbT = ebT then Inr (myc @ [Apply op a tgt])
          else (case stepRight d (myc @ [Apply op a tgt]) sbT qbs anc of
                  Inl e \<Rightarrow> Inl e
                | Inr myc' \<Rightarrow>
                    (case incrementBooleanTree d sbT of
                       Inl e \<Rightarrow> Inl e
                     | Inr sbT' \<Rightarrow> applyAndStep_helper d myc' ops sbT' ebT qbs anc tgt)))"

definition applyAndStep ::
  "nat \<Rightarrow> 'p list \<Rightarrow> bool list \<Rightarrow> bool list \<Rightarrow> 'q list \<Rightarrow> 'q list \<Rightarrow> 'q list
    \<Rightarrow> error + ('p, 'q) instr list" where
  "applyAndStep d operators start_bTree end_bTree controls ancilla target =
     (case d of
        0 \<Rightarrow> Inl RecursionError
      | Suc d \<Rightarrow>
          applyAndStep_helper d [] operators start_bTree end_bTree controls ancilla target)"

section \<open>WalkSynthesizer\<close>

text \<open>A Python \<^verbatim>\<open>for\<close> loop over a list whose body may raise: the first exception ends it.\<close>

primrec for_each :: "'a list \<Rightarrow> ('a \<Rightarrow> 's \<Rightarrow> error + 's) \<Rightarrow> 's \<Rightarrow> error + 's" where
  "for_each [] body s = Inr s"
| "for_each (x # xs) body s =
     (case body x s of Inl e \<Rightarrow> Inl e | Inr s' \<Rightarrow> for_each xs body s')"

text \<open>
  The body of the loop that builds the chain for the first key (\<^verbatim>\<open>for bi in
  range(width)[::-1]\<close>). The loop that clears the register after the last key (\<^verbatim>\<open>for ci in
  range(width)\<close>) has the same body, with \<^verbatim>\<open>prev_key_val\<close> for \<^verbatim>\<open>key_val\<close>.
\<close>

definition chain_gate ::
  "nat \<Rightarrow> nat \<Rightarrow> 'q \<Rightarrow> 'q list \<Rightarrow> 'q list \<Rightarrow> nat \<Rightarrow> ('p, 'q) instr list
    \<Rightarrow> error + ('p, 'q) instr list" where
  "chain_gate width key_val selQubit addrQubits ancQubits bi circuit =
     (let ctlSense = ((key_val div 2 ^ bi) mod 2 = 1)
      in if bi + 1 = width then
           (if bi < length addrQubits \<and> bi < length ancQubits
            then Inr (circuit @ map Gate
                   (toffoli True ctlSense selQubit (addrQubits ! bi) (ancQubits ! bi)))
            else Inl IndexError)
         else
           (if bi + 1 < length ancQubits \<and> bi < length addrQubits
            then Inr (circuit @ map Gate
                   (toffoli True ctlSense (ancQubits ! (bi + 1)) (addrQubits ! bi) (ancQubits ! bi)))
            else Inl IndexError))"

text \<open>
  The first \<^verbatim>\<open>while\<close> loop of a transition: clear the current address until the two keys
  agree above \<^verbatim>\<open>ci\<close>. It returns the final \<^verbatim>\<open>ci\<close> with the circuit. A pass through the
  body needs \<^verbatim>\<open>ancQubits[ci + 1]\<close>, so the loop ends, at the latest with an exception,
  before \<^verbatim>\<open>ci\<close> reaches the length of the ancilla register.
\<close>

function clear_loop ::
  "nat \<Rightarrow> nat \<Rightarrow> 'q list \<Rightarrow> 'q list \<Rightarrow> nat \<Rightarrow> ('p, 'q) instr list
    \<Rightarrow> error + nat \<times> ('p, 'q) instr list" where
  "clear_loop prev_key_val key_val addrQubits ancQubits ci circuit =
     (if \<not> (prev_key_val div 2 ^ (ci + 1) = key_val div 2 ^ (ci + 1)) then
        (let ctlSense = ((prev_key_val div 2 ^ ci) mod 2 = 1)
         in if ci + 1 < length ancQubits \<and> ci < length addrQubits
            then clear_loop prev_key_val key_val addrQubits ancQubits (ci + 1)
                   (circuit @ map Gate
                      (toffoli True ctlSense (ancQubits ! (ci + 1)) (addrQubits ! ci) (ancQubits ! ci)))
            else Inl IndexError)
      else Inr (ci, circuit))"
  by pat_completeness auto
termination
  by (relation "measure (\<lambda>(prev_key_val, key_val, addrQubits, ancQubits, ci, circuit).
        length ancQubits - ci)") auto

declare clear_loop.simps [simp del]

text \<open>Flip the bit that differs.\<close>

definition flip_gate ::
  "nat \<Rightarrow> 'q \<Rightarrow> 'q list \<Rightarrow> nat \<Rightarrow> ('p, 'q) instr list \<Rightarrow> error + ('p, 'q) instr list" where
  "flip_gate width selQubit ancQubits ci circuit =
     (if ci + 1 = width then
        (if ci < length ancQubits
         then Inr (circuit @ [Gate (CX selQubit (ancQubits ! ci))])
         else Inl IndexError)
      else
        (if ci + 1 < length ancQubits
         then Inr (circuit @ [Gate (CX (ancQubits ! (ci + 1)) (ancQubits ! ci))])
         else Inl IndexError))"

text \<open>The second \<^verbatim>\<open>while\<close> loop of a transition (\<^verbatim>\<open>while ci > 0\<close>): work down to the new value.\<close>

fun rebuild_loop ::
  "nat \<Rightarrow> 'q list \<Rightarrow> 'q list \<Rightarrow> nat \<Rightarrow> ('p, 'q) instr list \<Rightarrow> error + ('p, 'q) instr list" where
  "rebuild_loop key_val addrQubits ancQubits 0 circuit = Inr circuit"
| "rebuild_loop key_val addrQubits ancQubits (Suc ci) circuit =
     (let ctlSense = ((key_val div 2 ^ ci) mod 2 = 1)
      in if Suc ci < length ancQubits \<and> ci < length addrQubits
         then rebuild_loop key_val addrQubits ancQubits ci
                (circuit @ map Gate
                   (toffoli True ctlSense (ancQubits ! Suc ci) (addrQubits ! ci) (ancQubits ! ci)))
         else Inl IndexError)"

text \<open>The \<^verbatim>\<open>else\<close> branch of the loop over the keys: move from the previous key to the new one.\<close>

definition transition ::
  "nat \<Rightarrow> nat \<Rightarrow> nat \<Rightarrow> 'q \<Rightarrow> 'q list \<Rightarrow> 'q list \<Rightarrow> ('p, 'q) instr list
    \<Rightarrow> error + ('p, 'q) instr list" where
  "transition width prev_key_val key_val selQubit addrQubits ancQubits circuit =
     (case clear_loop prev_key_val key_val addrQubits ancQubits 0 circuit of
        Inl e \<Rightarrow> Inl e
      | Inr (ci, circuit) \<Rightarrow>
          (case flip_gate width selQubit ancQubits ci circuit of
             Inl e \<Rightarrow> Inl e
           | Inr circuit \<Rightarrow> rebuild_loop key_val addrQubits ancQubits ci circuit))"

text \<open>
  One pass through \<^verbatim>\<open>for key_val in key_vals\<close>. The loop state is \<^verbatim>\<open>prev_key_val\<close> and the
  circuit; the initial value \<open>-1\<close> of \<^verbatim>\<open>prev_key_val\<close>, which no key of a range of list
  indices equals, is \<open>None\<close>.
\<close>

definition key_body ::
  "nat \<Rightarrow> 'q \<Rightarrow> 'q list \<Rightarrow> 'q list \<Rightarrow> 'q list \<Rightarrow> 'p list \<Rightarrow> nat
    \<Rightarrow> nat option \<times> ('p, 'q) instr list \<Rightarrow> error + nat option \<times> ('p, 'q) instr list" where
  "key_body width selQubit addrQubits ancQubits trgtQubits operators key_val =
     (\<lambda>(prev_key_val, circuit).
        case (case prev_key_val of
                None \<Rightarrow> for_each (rev [0..<width])
                          (chain_gate width key_val selQubit addrQubits ancQubits) circuit
              | Some prev \<Rightarrow>
                  transition width prev key_val selQubit addrQubits ancQubits circuit) of
          Inl e \<Rightarrow> Inl e
        | Inr circuit \<Rightarrow>
            (if key_val < length operators \<and> 0 < length ancQubits
             then Inr (Some key_val,
                       circuit @ [Apply (operators ! key_val) (ancQubits ! 0) trgtQubits])
             else Inl IndexError))"

text \<open>
  \<^verbatim>\<open>qrom\<close>. The dictionary \<^verbatim>\<open>qubit_dict\<close> has exactly the four entries \<^verbatim>\<open>'a'\<close>, \<^verbatim>\<open>'b'\<close>,
  \<^verbatim>\<open>'s'\<close> and \<^verbatim>\<open>'t'\<close> that \<^verbatim>\<open>applyAndWalk\<close> stores; they are the first four arguments.
\<close>

definition qrom ::
  "'q list \<Rightarrow> 'q list \<Rightarrow> 'q \<Rightarrow> 'q list \<Rightarrow> nat \<Rightarrow> nat list \<Rightarrow> 'p list
    \<Rightarrow> error + ('p, 'q) instr list" where
  "qrom qubits_a qubits_b qubit_s qubits_t width key_vals operators =
     (let addrQubits = rev qubits_a;
          ancQubits = rev qubits_b;
          selQubit = qubit_s;
          trgtQubits = qubits_t
      in case for_each key_vals
                (key_body width selQubit addrQubits ancQubits trgtQubits operators) (None, []) of
           Inl e \<Rightarrow> Inl e
         | Inr (prev_key_val, circuit) \<Rightarrow>
             (case prev_key_val of
                None \<Rightarrow> Inr circuit
              | Some prev \<Rightarrow>
                  for_each [0..<width]
                    (chain_gate width prev selQubit addrQubits ancQubits) circuit))"

definition applyAndWalk ::
  "'p list \<Rightarrow> nat \<Rightarrow> nat \<Rightarrow> 'q list \<Rightarrow> 'q \<Rightarrow> 'q list \<Rightarrow> 'q list
    \<Rightarrow> error + ('p, 'q) instr list" where
  "applyAndWalk operators pos1 pos2 ctl_q sel_q anc_q tgt_q =
     (let key_values = map (\<lambda>ii. ii + pos1) [0..<pos2 - pos1]
      in qrom ctl_q anc_q sel_q tgt_q (length ctl_q) key_values operators)"

section \<open>OracleAssembler\<close>

text \<open>
  A term of the Hamiltonian is a Pauli string with a coefficient. The coefficient is only
  compared with zero, which a real number models exactly for every finite float.
\<close>

type_synonym pauli_term = "string \<times> real"

text \<open>One pass of the loop of \<^verbatim>\<open>controlled_pauli_gate\<close> over \<^verbatim>\<open>zip(pauliString, targets)\<close>.\<close>

definition pauli_body :: "'q \<Rightarrow> char \<times> 'q \<Rightarrow> 'q gate list \<Rightarrow> 'q gate list" where
  "pauli_body ctrl = (\<lambda>(p, tq) gate_sequence.
     if p = CHR ''I'' then gate_sequence
     else if p = CHR ''X'' then gate_sequence @ [CX ctrl tq]
     else if p = CHR ''Y'' then gate_sequence @ [S_inv tq] @ [CX ctrl tq] @ [S tq]
     else if p = CHR ''Z'' then gate_sequence @ [CZ ctrl tq]
     else gate_sequence)"

definition controlled_pauli_gate :: "string \<Rightarrow> 'q \<Rightarrow> 'q list \<Rightarrow> 'q gate list" where
  "controlled_pauli_gate pauliString ctrl targets =
     fold (pauli_body ctrl) (zip pauliString targets) []"

text \<open>The generator \<^verbatim>\<open>gate_seq\<close> that the loop over the terms builds for one term.\<close>

definition gate_seq :: "pauli_term \<Rightarrow> 'q \<Rightarrow> 'q list \<Rightarrow> 'q gate list" where
  "gate_seq term =
     (if snd term < 0
      then (\<lambda>ctrl qubits. [Z ctrl] @ controlled_pauli_gate (fst term) ctrl qubits)
      else (\<lambda>ctrl qubits. controlled_pauli_gate (fst term) ctrl qubits))"

definition convert_hamiltonian_terms_to_operators ::
  "pauli_term list \<Rightarrow> ('q \<Rightarrow> 'q list \<Rightarrow> 'q gate list) list" where
  "convert_hamiltonian_terms_to_operators terms =
     fold (\<lambda>term operator_generators. operator_generators @ [gate_seq term]) terms []"

text \<open>
  The two branches of \<^verbatim>\<open>SelVBase._decompose_\<close>, for a given range \<open>pos1\<close>, \<open>pos2\<close> and
  table of operators: the branch taken (\<^verbatim>\<open>if True\<close>), and the tree strategy of the
  \<^verbatim>\<open>else\<close> branch, whose three circuits are yielded in order. There \<^verbatim>\<open>pos2 - 1\<close> is an
  integer and may be \<open>-1\<close>.
\<close>

definition decompose_walk ::
  "'p list \<Rightarrow> nat \<Rightarrow> nat \<Rightarrow> 'q \<Rightarrow> 'q list \<Rightarrow> 'q list \<Rightarrow> 'q list \<Rightarrow> error + ('p, 'q) instr list" where
  "decompose_walk ham_as_ops pos1 pos2 phs_q ctl_q anc_q tgt_q =
     applyAndWalk ham_as_ops pos1 pos2 ctl_q phs_q anc_q tgt_q"

definition decompose_tree ::
  "nat \<Rightarrow> 'p list \<Rightarrow> nat \<Rightarrow> nat \<Rightarrow> 'q \<Rightarrow> 'q list \<Rightarrow> 'q list \<Rightarrow> 'q list
    \<Rightarrow> error + ('p, 'q) instr list" where
  "decompose_tree d all_ops pos1 pos2 phs_q ctl_q anc_q tgt_q =
     (let ham_as_ops = drop pos1 all_ops;
          start_node = [True] @ constructBooleanTree (int pos1) (length ctl_q);
          end_node = [True] @ constructBooleanTree (int pos2 - 1) (length ctl_q)
      in case walkDown d start_node ([phs_q] @ ctl_q) anc_q of
           Inl e \<Rightarrow> Inl e
         | Inr downCircuit \<Rightarrow>
       (case applyAndStep d ham_as_ops start_node end_node ctl_q ([phs_q] @ anc_q) tgt_q of
           Inl e \<Rightarrow> Inl e
         | Inr applyCircuit \<Rightarrow>
       (case walkDown d end_node ([phs_q] @ ctl_q) anc_q of
           Inl e \<Rightarrow> Inl e
         | Inr w \<Rightarrow>
             (let upCircuit = inverse w
              in Inr (map Gate downCircuit @ applyCircuit @ map Gate upCircuit)))))"

section \<open>Running a circuit on a register of bits\<close>

text \<open>
  A simulated register gives every qubit a bit value (a computational basis state).
  Running a circuit on it also records which payload operators fired, in order. The
  gates act as cirq defines them on basis states: \<open>X\<close>, \<open>CX\<close> and \<open>CCX\<close> are (controlled)
  negations of the target bit; \<open>Z\<close>, \<open>CZ\<close>, \<open>S\<close> and its inverse are diagonal and change no
  bit value. A block \<open>Apply p ctrl targets\<close> fires when its activation bit is 1 and does
  nothing otherwise; when it fires it acts on the target register only, by a function
  \<open>eff p\<close> of the target bits that is a parameter of the simulation.
\<close>

record ('p, 'q) register =
  bits :: "'q \<Rightarrow> bool"
  fired :: "'p list"

definition write_bits :: "'q list \<Rightarrow> bool list \<Rightarrow> ('q \<Rightarrow> bool) \<Rightarrow> ('q \<Rightarrow> bool)" where
  "write_bits qs vs f = (\<lambda>q. case map_of (zip qs vs) q of None \<Rightarrow> f q | Some v \<Rightarrow> v)"

definition fire ::
  "('p \<Rightarrow> bool list \<Rightarrow> bool list) \<Rightarrow> 'p \<Rightarrow> 'q list \<Rightarrow> ('p, 'q) register \<Rightarrow> ('p, 'q) register" where
  "fire eff p targets r =
     r\<lparr>bits := write_bits targets (eff p (map (bits r) targets)) (bits r),
       fired := fired r @ [p]\<rparr>"

fun exec_gate :: "'q gate \<Rightarrow> ('q \<Rightarrow> bool) \<Rightarrow> ('q \<Rightarrow> bool)" where
  "exec_gate (X q) f = f(q := \<not> f q)"
| "exec_gate (CX c t) f = f(t := (f t \<noteq> f c))"
| "exec_gate (CCX c0 c1 t) f = f(t := (f t \<noteq> (f c0 \<and> f c1)))"
| "exec_gate (Z q) f = f"
| "exec_gate (CZ c t) f = f"
| "exec_gate (S q) f = f"
| "exec_gate (S_inv q) f = f"

fun exec_instr ::
  "('p \<Rightarrow> bool list \<Rightarrow> bool list) \<Rightarrow> ('p, 'q) instr \<Rightarrow> ('p, 'q) register \<Rightarrow> ('p, 'q) register" where
  "exec_instr eff (Gate g) r = r\<lparr>bits := exec_gate g (bits r)\<rparr>"
| "exec_instr eff (Apply p ctrl targets) r = (if bits r ctrl then fire eff p targets r else r)"

definition exec ::
  "('p \<Rightarrow> bool list \<Rightarrow> bool list) \<Rightarrow> ('p, 'q) instr list \<Rightarrow> ('p, 'q) register \<Rightarrow> ('p, 'q) register" where
  "exec eff circuit r = fold (exec_instr eff) circuit r"

text \<open>The address that the bits of the address register denote, most significant bit first.\<close>

definition address :: "('p, 'q) register \<Rightarrow> 'q list \<Rightarrow> nat" where
  "address r ctl_q = decode (map (bits r) ctl_q)"

section \<open>Reference notions for the proofs\<close>

text \<open>
  Reference notion for the assembler: the instructions for one axis label on one target,
  conditioned on the activation bit.
\<close>

definition axis_instructions :: "'q \<Rightarrow> char \<Rightarrow> 'q \<Rightarrow> 'q gate list" where
  "axis_instructions ctrl p tq =
     (if p = CHR ''X'' then [CX ctrl tq]
      else if p = CHR ''Z'' then [CZ ctrl tq]
      else if p = CHR ''Y'' then [S_inv tq, CX ctrl tq, S tq]
      else [])"

text \<open>Bit \<open>i\<close> of a key, as the code computes it: \<^verbatim>\<open>(key_val >> i) % 2 == 1\<close>.\<close>

abbreviation key_bit :: "nat \<Rightarrow> nat \<Rightarrow> bool" where
  "key_bit k i \<equiv> (k div 2 ^ i) mod 2 = 1"

text \<open>The gate of the prefix chain at bit \<open>i\<close> for a transition: it is controlled by ancilla \<open>i + 1\<close>.\<close>

definition inner_chain_gate :: "nat \<Rightarrow> 'q list \<Rightarrow> 'q list \<Rightarrow> nat \<Rightarrow> ('p, 'q) instr list" where
  "inner_chain_gate k addrQubits ancQubits i =
     map Gate (toffoli True (key_bit k i) (ancQubits ! (i + 1)) (addrQubits ! i) (ancQubits ! i))"

text \<open>
  Reference notions for the prefix-match chain. The registers are taken as \<^verbatim>\<open>qrom\<close> uses
  them, least significant bit first. The control of the chain gate at bit \<open>i\<close> is ancilla
  \<open>i + 1\<close>, or the enable bit at the top.
\<close>

definition chain_ctl :: "nat \<Rightarrow> 'q \<Rightarrow> 'q list \<Rightarrow> nat \<Rightarrow> 'q" where
  "chain_ctl width selQubit ancQubits i =
     (if i + 1 = width then selQubit else ancQubits ! (i + 1))"

definition chain_gate_at :: "nat \<Rightarrow> nat \<Rightarrow> 'q \<Rightarrow> 'q list \<Rightarrow> 'q list \<Rightarrow> nat \<Rightarrow> 'q gate list" where
  "chain_gate_at width k selQubit addrQubits ancQubits i =
     toffoli True (key_bit k i) (chain_ctl width selQubit ancQubits i)
       (addrQubits ! i) (ancQubits ! i)"

text \<open>
  The value that ancilla \<open>i\<close> holds when the chain for key \<open>k\<close> has been built on a register
  with the bits \<open>f\<close>: the ancilla's own bit, negated if the chain above it holds and
  address bit \<open>i\<close> is bit \<open>i\<close> of the key. Above the register it is the enable bit.
\<close>

function chain_val :: "('q \<Rightarrow> bool) \<Rightarrow> 'q \<Rightarrow> 'q list \<Rightarrow> 'q list \<Rightarrow> nat \<Rightarrow> nat \<Rightarrow> bool" where
  "chain_val f selQubit addrQubits ancQubits k i =
     (if length ancQubits \<le> i then f selQubit
      else (f (ancQubits ! i) \<noteq>
              (chain_val f selQubit addrQubits ancQubits k (i + 1)
                 \<and> f (addrQubits ! i) = key_bit k i)))"
  by pat_completeness auto
termination
  by (relation "measure (\<lambda>(f, selQubit, addrQubits, ancQubits, k, i). length ancQubits - i)") auto

declare chain_val.simps [simp del]

text \<open>The bits of a register whose ancillas from \<open>c\<close> upwards hold the chain for key \<open>k\<close>.\<close>

definition chain_bits ::
  "('q \<Rightarrow> bool) \<Rightarrow> 'q \<Rightarrow> 'q list \<Rightarrow> 'q list \<Rightarrow> nat \<Rightarrow> nat \<Rightarrow> 'q \<Rightarrow> bool" where
  "chain_bits f selQubit addrQubits ancQubits k c =
     (\<lambda>q. case find (\<lambda>i. ancQubits ! i = q) [c..<length ancQubits] of
             None \<Rightarrow> f q
           | Some i \<Rightarrow> chain_val f selQubit addrQubits ancQubits k i)"

text \<open>A register whose ancillas from \<open>c\<close> upwards hold the chain for key \<open>k\<close>.\<close>

definition chained ::
  "'q \<Rightarrow> 'q list \<Rightarrow> 'q list \<Rightarrow> nat \<Rightarrow> nat \<Rightarrow> ('p, 'q) register \<Rightarrow> ('p, 'q) register" where
  "chained selQubit addrQubits ancQubits k c r =
     r\<lparr>bits := chain_bits (bits r) selQubit addrQubits ancQubits k c\<rparr>"

text \<open>
  The payloads that fire while the keys \<open>ks\<close> are visited in turn: the one of key \<open>k\<close>
  fires if the bottom of the chain for \<open>k\<close> holds 1.
\<close>

definition payloads ::
  "('p \<Rightarrow> bool list \<Rightarrow> bool list) \<Rightarrow> 'p list \<Rightarrow> 'q list \<Rightarrow> 'q \<Rightarrow> 'q list \<Rightarrow> 'q list \<Rightarrow> nat list
    \<Rightarrow> ('p, 'q) register \<Rightarrow> ('p, 'q) register" where
  "payloads eff operators targets selQubit addrQubits ancQubits ks r =
     fold (\<lambda>k r. if chain_val (bits r) selQubit addrQubits ancQubits k 0
                  then fire eff (operators ! k) targets r else r) ks r"

text \<open>
  A gate whose target is not one of its controls; cirq builds no other. On bits such a
  gate is undone by its inverse.
\<close>

fun gate_ok :: "'q gate \<Rightarrow> bool" where
  "gate_ok (CX c t) = (c \<noteq> t)"
| "gate_ok (CCX c0 c1 t) = (c0 \<noteq> t \<and> c1 \<noteq> t)"
| "gate_ok g = True"

text \<open>The gate of \<^verbatim>\<open>walkDown_helper\<close> for bit \<open>i\<close> of the key, with the registers as \<^verbatim>\<open>qrom\<close> has them.\<close>

definition down_gate_at :: "nat \<Rightarrow> 'q list \<Rightarrow> 'q list \<Rightarrow> nat \<Rightarrow> 'q gate list" where
  "down_gate_at k addrQubits ancQubits i =
     toffoli (key_bit k i) True (addrQubits ! i) (ancQubits ! (i + 1)) (ancQubits ! i)"

subsection \<open>The recursive functions on a stack without limit\<close>

text \<open>
  Reference notions for the tree strategy: the recursive functions of the module as they
  are written, with no bound on the depth of the calls. They are what the functions
  above compute when the stack has room enough, and never raise \<^verbatim>\<open>RecursionError\<close>.
  The proofs about the instructions that the tree strategy emits are made on them and
  carried over.
\<close>

fun incBT_unbounded :: "bool list \<Rightarrow> error + bool list" where
  "incBT_unbounded [] = Inl IndexError"
| "incBT_unbounded (h # m) =
     (if h = False then Inr ([True] @ m)
      else (case incBT_unbounded m of Inl e \<Rightarrow> Inl e | Inr r \<Rightarrow> Inr ([False] @ r)))"

definition incrementBooleanTree_unbounded :: "bool list \<Rightarrow> error + bool list" where
  "incrementBooleanTree_unbounded n =
     (case incBT_unbounded (rev n) of Inl e \<Rightarrow> Inl e | Inr r \<Rightarrow> Inr (rev r))"

fun walkDown_helper_unbounded ::
  "'q gate list \<Rightarrow> bool list \<Rightarrow> 'q list \<Rightarrow> 'q list \<Rightarrow> error + 'q gate list" where
  "walkDown_helper_unbounded myc [] qbt anc = Inr myc"
| "walkDown_helper_unbounded myc (b # bt) (q # qbt) (a0 # a1 # anc) =
     walkDown_helper_unbounded (myc @ toffoli b True q a0 a1) bt qbt (a1 # anc)"
| "walkDown_helper_unbounded myc (b # bt) qbt anc = Inl IndexError"

definition walkDown_unbounded :: "bool list \<Rightarrow> 'q list \<Rightarrow> 'q list \<Rightarrow> error + 'q gate list" where
  "walkDown_unbounded bTree qubits ancilla =
     (if 1 < length bTree \<and> 1 < length qubits \<and> 0 < length ancilla
      then walkDown_helper_unbounded
             (toffoli (bTree ! 0) (bTree ! 1) (qubits ! 0) (qubits ! 1) (ancilla ! 0))
             (drop 2 bTree) (drop 2 qubits) ancilla
      else Inl IndexError)"

function stepRight_unbounded ::
  "('p, 'q) instr list \<Rightarrow> bool list \<Rightarrow> 'q list \<Rightarrow> 'q list \<Rightarrow> error + ('p, 'q) instr list" where
  "stepRight_unbounded circuit bTree qubits ancilla =
     (case incrementBooleanTree_unbounded bTree of
        Inl e \<Rightarrow> Inl e
      | Inr inc \<Rightarrow>
          (let distance = h_distance bTree inc;
               n_anc = length ancilla
           in if distance = 0 then Inr circuit
              else if distance = 1 then
                (if n_anc = 1 then
                   (case nth2last ancilla 0 of Inl e \<Rightarrow> Inl e | Inr q0 \<Rightarrow>
                      Inr (circuit @ [Gate (X q0)]))
                 else
                   (case nth2last ancilla 0 of Inl e \<Rightarrow> Inl e | Inr q0 \<Rightarrow>
                    case nth2last ancilla 1 of Inl e \<Rightarrow> Inl e | Inr q1 \<Rightarrow>
                      Inr (circuit @ [Gate (CX q1 q0)])))
              else if distance = 2 then
                (if n_anc = 2 then
                   (case nth2last ancilla 0 of Inl e \<Rightarrow> Inl e | Inr q0 \<Rightarrow>
                    case nth2last ancilla 1 of Inl e \<Rightarrow> Inl e | Inr q1 \<Rightarrow>
                    case nth2last qubits 0 of Inl e \<Rightarrow> Inl e | Inr x0 \<Rightarrow>
                      Inr (circuit @ [Gate (CX q1 q0)] @ [Gate (CX x0 q0)]
                             @ [Gate (X q1)] @ [Gate (X q0)]))
                 else
                   (case nth2last ancilla 0 of Inl e \<Rightarrow> Inl e | Inr q0 \<Rightarrow>
                    case nth2last ancilla 1 of Inl e \<Rightarrow> Inl e | Inr q1 \<Rightarrow>
                    case nth2last ancilla 2 of Inl e \<Rightarrow> Inl e | Inr q2 \<Rightarrow>
                    case nth2last qubits 0 of Inl e \<Rightarrow> Inl e | Inr x0 \<Rightarrow>
                      Inr (circuit @ [Gate (CX q1 q0)]
                             @ map Gate (toffoli True False q2 x0 q0)
                             @ [Gate (CX q2 q1)])))
              else
                (case nth2last qubits 0 of Inl e \<Rightarrow> Inl e | Inr x0 \<Rightarrow>
                 case nth2last ancilla 0 of Inl e \<Rightarrow> Inl e | Inr q0 \<Rightarrow>
                 case nth2last ancilla 1 of Inl e \<Rightarrow> Inl e | Inr q1 \<Rightarrow>
                   (let qubits2 = butlast qubits;
                        ancilla2 = butlast ancilla;
                        m_bTree = butlast bTree
                    in case stepRight_unbounded (circuit @ map Gate (toffoli True True q1 x0 q0))
                              m_bTree qubits2 ancilla2 of
                         Inl e \<Rightarrow> Inl e
                       | Inr circuit' \<Rightarrow>
                           Inr (circuit' @ map Gate (toffoli True False q1 x0 q0))))))"
  by pat_completeness auto
termination
proof (relation "measure (\<lambda>(circuit, bTree, qubits, ancilla). length bTree)", goal_cases)
  case 1
  show ?case by simp
next
  case (2 circuit bTree qubits ancilla inc)
  then have "bTree \<noteq> []"
    by (auto simp: incrementBooleanTree_unbounded_def)
  with 2 show ?case by simp
qed

declare stepRight_unbounded.simps [simp del]

fun applyAndStep_helper_unbounded ::
  "('p, 'q) instr list \<Rightarrow> 'p list \<Rightarrow> bool list \<Rightarrow> bool list \<Rightarrow> 'q list \<Rightarrow> 'q list \<Rightarrow> 'q list
    \<Rightarrow> error + ('p, 'q) instr list" where
  "applyAndStep_helper_unbounded myc [] sbT ebT qbs anc tgt = Inl IndexError"
| "applyAndStep_helper_unbounded myc (op # ops) sbT ebT qbs anc tgt =
     (case nth2last anc 0 of
        Inl e \<Rightarrow> Inl e
      | Inr a \<Rightarrow>
          if sbT = ebT then Inr (myc @ [Apply op a tgt])
          else (case stepRight_unbounded (myc @ [Apply op a tgt]) sbT qbs anc of
                  Inl e \<Rightarrow> Inl e
                | Inr myc' \<Rightarrow>
                    (case incrementBooleanTree_unbounded sbT of
                       Inl e \<Rightarrow> Inl e
                     | Inr sbT' \<Rightarrow> applyAndStep_helper_unbounded myc' ops sbT' ebT qbs anc tgt)))"

definition applyAndStep_unbounded ::
  "'p list \<Rightarrow> bool list \<Rightarrow> bool list \<Rightarrow> 'q list \<Rightarrow> 'q list \<Rightarrow> 'q list
    \<Rightarrow> error + ('p, 'q) instr list" where
  "applyAndStep_unbounded operators start_bTree end_bTree controls ancilla target =
     applyAndStep_helper_unbounded [] operators start_bTree end_bTree controls ancilla target"

definition decompose_tree_unbounded ::
  "'p list \<Rightarrow> nat \<Rightarrow> nat \<Rightarrow> 'q \<Rightarrow> 'q list \<Rightarrow> 'q list \<Rightarrow> 'q list \<Rightarrow> error + ('p, 'q) instr list" where
  "decompose_tree_unbounded all_ops pos1 pos2 phs_q ctl_q anc_q tgt_q =
     (let ham_as_ops = drop pos1 all_ops;
          start_node = [True] @ constructBooleanTree (int pos1) (length ctl_q);
          end_node = [True] @ constructBooleanTree (int pos2 - 1) (length ctl_q)
      in case walkDown_unbounded start_node ([phs_q] @ ctl_q) anc_q of
           Inl e \<Rightarrow> Inl e
         | Inr downCircuit \<Rightarrow>
       (case applyAndStep_unbounded ham_as_ops start_node end_node ctl_q ([phs_q] @ anc_q) tgt_q of
           Inl e \<Rightarrow> Inl e
         | Inr applyCircuit \<Rightarrow>
       (case walkDown_unbounded end_node ([phs_q] @ ctl_q) anc_q of
           Inl e \<Rightarrow> Inl e
         | Inr w \<Rightarrow>
             (let upCircuit = inverse w
              in Inr (map Gate downCircuit @ applyCircuit @ map Gate upCircuit)))))"

section \<open>Properties of the address codec\<close>

lemma msb_first_bits_Suc:
  "msb_first_bits (Suc w) k = msb_first_bits w (k div 2) @ [k mod 2 = 1]"
proof -
  have "rev [0..<Suc w] = map Suc (rev [0..<w]) @ [0]"
    by (simp add: upt_conv_Cons map_Suc_upt rev_map [symmetric] del: upt_Suc)
  then show ?thesis
    by (simp add: msb_first_bits_def div_mult2_eq comp_def del: upt_Suc)
qed

lemma length_msb_first_bits [simp]: "length (msb_first_bits w k) = w"
  by (simp add: msb_first_bits_def)

lemma nth_msb_first_bits:
  "j < w \<Longrightarrow> msb_first_bits w k ! j = ((k div 2 ^ (w - 1 - j)) mod 2 = 1)"
  by (simp add: msb_first_bits_def rev_nth)

lemma bin_digits_bits:
  "map (\<lambda>v. if v = CHR ''1'' then True else False) (bin_digits n)
     = msb_first_bits (length (bin_digits n)) n"
proof (induction n rule: bin_digits.induct)
  case (1 n)
  show ?case
  proof (cases "n < 2")
    case True
    then have "n = 0 \<or> n = 1" by arith
    then show ?thesis by (auto simp: bin_digits.simps [of n] msb_first_bits_def)
  next
    case False
    with 1 show ?thesis
      by (simp add: bin_digits.simps [of n] msb_first_bits_Suc)
  qed
qed

lemma bin_digits_bound: "n < 2 ^ length (bin_digits n)"
proof (induction n rule: bin_digits.induct)
  case (1 n)
  show ?case
  proof (cases "n < 2")
    case True
    then show ?thesis by (simp add: bin_digits.simps [of n])
  next
    case False
    with 1 have "n div 2 < 2 ^ length (bin_digits (n div 2))" by simp
    then have "n < 2 * 2 ^ length (bin_digits (n div 2))" by arith
    with False show ?thesis by (simp add: bin_digits.simps [of n])
  qed
qed

lemma bin_digits_length_le: "0 < w \<Longrightarrow> n < 2 ^ w \<Longrightarrow> length (bin_digits n) \<le> w"
proof (induction n arbitrary: w rule: bin_digits.induct)
  case (1 n)
  show ?case
  proof (cases "n < 2")
    case True
    with "1.prems" show ?thesis by (simp add: bin_digits.simps [of n])
  next
    case False
    from "1.prems" obtain v where w: "w = Suc v" by (cases w) auto
    with False "1.prems" have v: "0 < v" by (cases v) auto
    from w "1.prems" have "n div 2 < 2 ^ v" by auto
    with 1 False v have "length (bin_digits (n div 2)) \<le> v" by simp
    with False w show ?thesis by (simp add: bin_digits.simps [of n])
  qed
qed

lemma bin_digits_length_gt: "2 ^ w \<le> n \<Longrightarrow> w < length (bin_digits n)"
proof (rule ccontr)
  assume le: "2 ^ w \<le> n" and "\<not> w < length (bin_digits n)"
  then have "length (bin_digits n) \<le> w" by simp
  then have "(2::nat) ^ length (bin_digits n) \<le> 2 ^ w"
    by (simp add: power_increasing)
  with bin_digits_bound [of n] le show False by simp
qed

lemma msb_first_bits_pad:
  "k < 2 ^ v \<Longrightarrow> v \<le> w \<Longrightarrow> msb_first_bits w k = replicate (w - v) False @ msb_first_bits v k"
proof (induction w)
  case 0
  then show ?case by simp
next
  case (Suc w)
  show ?case
  proof (cases "v = Suc w")
    case True
    then show ?thesis by simp
  next
    case False
    with Suc.prems have le: "v \<le> w" by simp
    with Suc have IH: "msb_first_bits w k = replicate (w - v) False @ msb_first_bits v k"
      by simp
    from Suc.prems le have "k < 2 ^ w"
      by (meson le less_le_trans one_le_numeral power_increasing)
    then have "k div 2 ^ w = 0" by simp
    then have "msb_first_bits (Suc w) k = False # msb_first_bits w k"
      by (simp add: msb_first_bits_def)
    with IH le show ?thesis by (simp add: Suc_diff_le)
  qed
qed

lemma constructBooleanTree_nonneg:
  "constructBooleanTree (int k) m = msb_first_bits (max m (length (bin_digits k))) k"
proof -
  let ?d = "bin_digits k"
  have "constructBooleanTree (int k) m =
      replicate (m - length ?d) False @ msb_first_bits (length ?d) k"
    by (simp add: constructBooleanTree_def bin_def bin_digits_bits Let_def)
  also have "\<dots> = msb_first_bits (max m (length ?d)) k"
  proof (cases "length ?d \<le> m")
    case True
    then show ?thesis
      using msb_first_bits_pad [OF bin_digits_bound, of k m] by (simp add: max_def)
  next
    case False
    then show ?thesis by (simp add: max_def)
  qed
  finally show ?thesis .
qed

lemma constructBooleanTree_in_range:
  "0 < m \<Longrightarrow> k < 2 ^ m \<Longrightarrow> constructBooleanTree (int k) m = msb_first_bits m k"
  using bin_digits_length_le [of m k] by (simp add: constructBooleanTree_nonneg max_def)

lemma rev_msb_first_bits_Suc:
  "rev (msb_first_bits (Suc w) k) = (k mod 2 = 1) # rev (msb_first_bits w (k div 2))"
  by (simp add: msb_first_bits_Suc)

lemma incBT_bits:
  "k + 1 < 2 ^ w \<Longrightarrow> incBT_unbounded (rev (msb_first_bits w k)) = Inr (rev (msb_first_bits w (k + 1)))"
proof (induction w arbitrary: k)
  case 0
  then show ?case by simp
next
  case (Suc w)
  show ?case
  proof (cases "even k")
    case True
    then have "(k + 1) mod 2 = 1" "(k + 1) div 2 = k div 2" by (auto elim: evenE)
    with True show ?thesis
      by (simp add: rev_msb_first_bits_Suc del: One_nat_def)
  next
    case False
    then have k1: "(k + 1) mod 2 = 0" "(k + 1) div 2 = k div 2 + 1" by (auto elim: oddE)
    with Suc.prems have "k div 2 + 1 < 2 ^ w" by auto
    then have "incBT_unbounded (rev (msb_first_bits w (k div 2))) = Inr (rev (msb_first_bits w (k div 2 + 1)))"
      by (rule Suc.IH)
    with False k1 show ?thesis
      by (simp add: rev_msb_first_bits_Suc odd_iff_mod_2_eq_one del: One_nat_def)
  qed
qed

lemma incrementBooleanTree_bits:
  "k + 1 < 2 ^ w \<Longrightarrow> incrementBooleanTree_unbounded (msb_first_bits w k) = Inr (msb_first_bits w (k + 1))"
  by (simp add: incrementBooleanTree_unbounded_def incBT_bits)

lemma decode_snoc: "decode (bs @ [b]) = 2 * decode bs + (if b then 1 else 0)"
  by (simp add: decode_def)

lemma decode_msb_first_bits: "decode (msb_first_bits w k) = k mod 2 ^ w"
proof (induction w arbitrary: k)
  case 0
  then show ?case by (simp add: decode_def msb_first_bits_def)
next
  case (Suc w)
  have "k mod 2 ^ Suc w = 2 * (k div 2 mod 2 ^ w) + k mod 2"
    by (simp add: mod_mult2_eq)
  with Suc show ?case
    by (auto simp: msb_first_bits_Suc decode_snoc)
qed

lemma incBT_Inl_iff:
  "incBT_unbounded m = Inl e \<longleftrightarrow> e = IndexError \<and> (\<forall>b \<in> set m. b)"
  by (induction m) (auto split: sum.splits)

lemma incBT_length: "incBT_unbounded m = Inr r \<Longrightarrow> length r = length m"
  by (induction m arbitrary: r) (auto split: if_splits sum.splits)

lemma incrementBooleanTree_Inl_iff:
  "incrementBooleanTree_unbounded n = Inl e \<longleftrightarrow> e = IndexError \<and> (\<forall>b \<in> set n. b)"
  using incBT_Inl_iff [of "rev n" e]
  by (auto simp: incrementBooleanTree_unbounded_def split: sum.splits)

lemma incrementBooleanTree_length:
  "incrementBooleanTree_unbounded n = Inr r \<Longrightarrow> length r = length n"
  by (auto simp: incrementBooleanTree_unbounded_def dest: incBT_length split: sum.splits)

subsection \<open>The increment and the depth of its recursion\<close>

lemma incBT_depth:
  "incBT d m = (if d \<le> length (takeWhile (\<lambda>b. b) m) then Inl RecursionError
                else incBT_unbounded m)"
  by (induction d m rule: incBT.induct) auto

lemma incrementBooleanTree_depth:
  "incrementBooleanTree d n =
     (if d \<le> Suc (length (takeWhile (\<lambda>b. b) (rev n))) then Inl RecursionError
      else incrementBooleanTree_unbounded n)"
  by (cases d) (simp_all add: incrementBooleanTree_def incrementBooleanTree_unbounded_def incBT_depth)

lemma incrementBooleanTree_returns:
  "incrementBooleanTree d n = Inr r \<Longrightarrow> incrementBooleanTree_unbounded n = Inr r"
  by (simp add: incrementBooleanTree_depth split: if_splits)

lemma trailing_run_le: "length (takeWhile (\<lambda>b. b) (rev n)) \<le> length n"
  using length_takeWhile_le [of "\<lambda>b. b" "rev n"] by simp

lemma trailing_run_less:
  assumes "\<exists>b \<in> set n. \<not> b"
  shows "length (takeWhile (\<lambda>b. b) (rev n)) < length n"
proof (rule ccontr)
  assume "\<not> ?thesis"
  with trailing_run_le [of n] have "length (takeWhile (\<lambda>b. b) (rev n)) = length (rev n)" by simp
  then have "takeWhile (\<lambda>b. b) (rev n) = rev n"
    by (metis takeWhile_eq_take take_all order_refl)
  then have "\<forall>b \<in> set (rev n). b" by (simp add: takeWhile_eq_all_conv)
  with assms show False by auto
qed

lemma msb_first_bits_not_all:
  assumes "k + 1 < 2 ^ w"
  shows "\<exists>b \<in> set (msb_first_bits w k). \<not> b"
  using incBT_bits [OF assms] incBT_Inl_iff [of "rev (msb_first_bits w k)" IndexError] by auto

lemma msb_first_bits_ones: "msb_first_bits n (2 ^ n - 1) = replicate n True"
proof (induction n)
  case 0
  then show ?case by (simp add: msb_first_bits_def)
next
  case (Suc n)
  have "(2 ^ Suc n - 1) div 2 = (2 ^ n - 1 :: nat)" "(2 ^ Suc n - 1) mod 2 = (1 :: nat)"
    by (simp_all add: mod2_eq_if)
  with Suc show ?case
    by (simp add: msb_first_bits_Suc replicate_append_same)
qed

lemma msb_first_bits_Cons:
  "msb_first_bits (Suc n) k = ((k div 2 ^ n) mod 2 = 1) # msb_first_bits n k"
  by (simp add: msb_first_bits_def)

lemma encode_ones:
  "constructBooleanTree (int (2 ^ n - 1)) (Suc n) = False # replicate n True"
proof -
  have lt: "(2 ^ n - 1 :: nat) < 2 ^ Suc n"
    by (simp add: less_imp_diff_less)
  have "(2 ^ n - 1 :: nat) div 2 ^ n = 0" by simp
  then show ?thesis
    using constructBooleanTree_in_range [OF _ lt] msb_first_bits_ones [of n]
    by (simp add: msb_first_bits_Cons)
qed

lemma takeWhile_ones: "takeWhile (\<lambda>b. b) (replicate n True @ [False]) = replicate n True"
  by (induction n) simp_all

lemma increment_overflow:
  "d \<le> Suc n \<Longrightarrow> incrementBooleanTree d (False # replicate n True) = Inl RecursionError"
  by (simp add: incrementBooleanTree_depth takeWhile_ones)

lemma increment_overflow_encode:
  assumes "d \<le> Suc n"
  shows "(2::nat) ^ n - 1 < 2 ^ Suc n - 1
     \<and> constructBooleanTree (int (2 ^ n - 1)) (Suc n) = False # replicate n True
     \<and> incrementBooleanTree d (constructBooleanTree (int (2 ^ n - 1)) (Suc n)) = Inl RecursionError"
proof -
  have "(2::nat) ^ n - 1 < 2 ^ Suc n - 1"
    by (simp add: diff_less_mono)
  with assms show ?thesis
    by (simp only: encode_ones increment_overflow simp_thms)
qed

lemma incrementBooleanTree_store_refines:
  assumes "n < length h"
  shows "incrementBooleanTree_store d n h =
    (case d of
       0 \<Rightarrow> (Inl RecursionError, h)
     | Suc d' \<Rightarrow>
        (case incrementBooleanTree d (h ! n) of
           Inl e \<Rightarrow> (Inl e, h @ [rev (h ! n)])
         | Inr r \<Rightarrow> (Inr (Suc (length h)), h @ [rev (h ! n), r])))"
  using assms
  by (simp add: incrementBooleanTree_store_def incrementBooleanTree_def alloc_def
      reverse_in_place_def nth_append list_update_append split: sum.splits nat.splits)


lemma incrementBooleanTree_store_fst:
  assumes "n < length h"
  shows "fst (incrementBooleanTree_store d n h) =
    (case incrementBooleanTree d (h ! n) of Inl e \<Rightarrow> Inl e | Inr r \<Rightarrow> Inr (Suc (length h)))"
  using assms
  by (cases d) (simp_all add: incrementBooleanTree_store_refines incrementBooleanTree_def
      split: sum.splits)

lemma incrementBooleanTree_store_old:
  assumes "n < length h" and "m < length h"
  shows "snd (incrementBooleanTree_store d n h) ! m = h ! m"
  using assms
  by (cases d) (simp_all add: incrementBooleanTree_store_refines nth_append split: sum.splits)

lemma incrementBooleanTree_store_new:
  assumes "n < length h" and "incrementBooleanTree d (h ! n) = Inr r"
  shows "snd (incrementBooleanTree_store d n h) ! Suc (length h) = r"
    and "Suc (length h) < length (snd (incrementBooleanTree_store d n h))"
  using assms
  by (cases d; simp add: incrementBooleanTree_store_refines incrementBooleanTree_def nth_append)+

lemma incrementBooleanTree_RecursionError_iff:
  "incrementBooleanTree d n = Inl RecursionError
     \<longleftrightarrow> d \<le> Suc (length (takeWhile (\<lambda>b. b) (rev n)))"
  by (simp add: incrementBooleanTree_depth incrementBooleanTree_Inl_iff)

lemma trailing_run_all:
  "(\<forall>b \<in> set n. b) \<Longrightarrow> length (takeWhile (\<lambda>b. b) (rev n)) = length n"
  by (simp add: takeWhile_eq_all_conv [THEN iffD2])

lemma incrementBooleanTree_IndexError_iff:
  "incrementBooleanTree d n = Inl IndexError \<longleftrightarrow> Suc (length n) < d \<and> (\<forall>b \<in> set n. b)"
proof (cases "\<forall>b \<in> set n. b")
  case True
  then show ?thesis
    using trailing_run_all [OF True]
    by (simp add: incrementBooleanTree_depth incrementBooleanTree_Inl_iff not_le)
next
  case False
  then show ?thesis
    by (auto simp: incrementBooleanTree_depth incrementBooleanTree_Inl_iff)
qed

lemma incrementBooleanTree_Inr:
  assumes "\<exists>b \<in> set n. \<not> b" and "Suc (length (takeWhile (\<lambda>b. b) (rev n))) < d"
  shows "\<exists>r. incrementBooleanTree d n = Inr r \<and> length r = length n"
proof (cases "incrementBooleanTree d n")
  case (Inl e)
  with assms show ?thesis
    using incrementBooleanTree_RecursionError_iff [of d n]
      incrementBooleanTree_IndexError_iff [of d n]
    by (cases e) auto
next
  case (Inr r)
  then have "incrementBooleanTree_unbounded n = Inr r"
    by (rule incrementBooleanTree_returns)
  with Inr show ?thesis
    by (simp add: incrementBooleanTree_length)
qed

lemma increment_overflow_store:
  assumes "d \<le> Suc n"
  shows "False \<in> set (False # replicate n True)
     \<and> fst (incrementBooleanTree_store d 0 [False # replicate n True]) = Inl RecursionError
     \<and> incrementBooleanTree d (False # replicate n True) = Inl RecursionError"
  using assms incrementBooleanTree_store_fst [of 0 "[False # replicate n True]" d]
  by (simp add: increment_overflow)

text \<open>
  C5 as stated fails: \<^verbatim>\<open>incBT\<close> calls itself once for every trailing 1 bit of the key,
  so the increment of a key with 1000 trailing 1 bits, which is below \<open>2^W - 1\<close> for
  \<open>W = 1001\<close>, raises \<^verbatim>\<open>RecursionError\<close> under the default limit of 1000 frames, and
  under every smaller room.
\<close>

theorem increment_recursion_limit_counterexample:
  "(2::nat) ^ 1000 - 1 < 2 ^ Suc 1000 - 1
   \<and> constructBooleanTree (int (2 ^ 1000 - 1)) (Suc 1000) = False # replicate 1000 True
   \<and> incrementBooleanTree 1000 (constructBooleanTree (int (2 ^ 1000 - 1)) (Suc 1000))
       = Inl RecursionError"
  by (rule increment_overflow_encode) simp

text \<open>
  C5 amended: for every \<open>k\<close> in \<open>[0, 2^W - 1)\<close>, the increment of the \<open>W\<close>-bit encoding of
  \<open>k\<close> is the encoding of \<open>k + 1\<close> when the stack has room for \<open>t + 2\<close> frames, \<open>t\<close> the
  number of trailing 1 bits of \<open>k\<close>, and \<^verbatim>\<open>RecursionError\<close> otherwise. Since \<open>t < W\<close>,
  room for more than \<open>W\<close> frames is enough for every such \<open>k\<close>. The encoding of \<open>k + 1\<close>
  decodes to \<open>k + 1\<close>.
\<close>

theorem increment_encode_roundtrip:
  assumes "k < 2 ^ W - 1"
  shows "incrementBooleanTree d (constructBooleanTree (int k) W)
           = (if d \<le> Suc (length (takeWhile (\<lambda>b. b) (rev (constructBooleanTree (int k) W))))
              then Inl RecursionError
              else Inr (constructBooleanTree (int (k + 1)) W))
         \<and> length (takeWhile (\<lambda>b. b) (rev (constructBooleanTree (int k) W))) < W
         \<and> (W < d \<longrightarrow> incrementBooleanTree d (constructBooleanTree (int k) W)
                          = Inr (constructBooleanTree (int (k + 1)) W))
         \<and> decode (constructBooleanTree (int (k + 1)) W) = k + 1"
proof -
  from assms have k1: "k + 1 < 2 ^ W" by simp
  then have W: "0 < W" by (cases W) auto
  from k1 have k: "k < 2 ^ W" by simp
  have enc: "constructBooleanTree (int k) W = msb_first_bits W k"
    "constructBooleanTree (int (k + 1)) W = msb_first_bits W (k + 1)"
    using W k k1 by (simp_all only: constructBooleanTree_in_range)
  have unb: "incrementBooleanTree_unbounded (msb_first_bits W k) = Inr (msb_first_bits W (k + 1))"
    by (rule incrementBooleanTree_bits [OF k1])
  have run: "length (takeWhile (\<lambda>b. b) (rev (msb_first_bits W k))) < W"
    using trailing_run_less [OF msb_first_bits_not_all [OF k1]] by (simp add: length_msb_first_bits)
  have "decode (msb_first_bits W (k + 1)) = k + 1"
    using k1 by (simp only: decode_msb_first_bits mod_less)
  with unb run show ?thesis
    unfolding enc by (simp add: incrementBooleanTree_depth)
qed

theorem increment_encode_roundtrip_witness:
  "(5::nat) < 2 ^ 3 - 1
   \<and> constructBooleanTree (int 5) 3 = [True, False, True]
   \<and> incrementBooleanTree 3 (constructBooleanTree (int 5) 3) = Inr (constructBooleanTree (int (5 + 1)) 3)
   \<and> incrementBooleanTree 2 (constructBooleanTree (int 5) 3) = Inl RecursionError
   \<and> decode (constructBooleanTree (int (5 + 1)) 3) = 5 + 1"
proof -
  have h: "(5::nat) < 2 ^ 3 - 1" by simp
  have "constructBooleanTree (int 5) 3 = [True, False, True]"
    by code_simp
  with h increment_encode_roundtrip [OF h, of 3] increment_encode_roundtrip [OF h, of 2]
  show ?thesis by simp
qed

text \<open>
  C9 as stated fails: an input that has a False bit before 1000 True bits raises
  \<^verbatim>\<open>RecursionError\<close> under the default limit of 1000 frames, although not every bit of
  it is True.
\<close>

theorem increment_raises_with_a_false_counterexample:
  "False \<in> set (False # replicate 1000 True)
   \<and> fst (incrementBooleanTree_store 1000 0 [False # replicate 1000 True]) = Inl RecursionError
   \<and> incrementBooleanTree 1000 (False # replicate 1000 True) = Inl RecursionError"
  by (rule increment_overflow_store) simp

text \<open>
  C9 amended: \<^verbatim>\<open>incrementBooleanTree\<close> raises \<^verbatim>\<open>RecursionError\<close> exactly when the stack
  has no room for \<open>t + 2\<close> frames, \<open>t\<close> the length of the trailing run of True bits of its
  input, and \<^verbatim>\<open>IndexError\<close> exactly when every bit of the input is True and the stack
  has room for two frames more than the input is long. For an input with a False bit,
  where \<open>t\<close> is less than the length, and room for \<open>t + 2\<close> frames it returns a new list
  of the same length. In every case each list object that existed before the call, the
  input among them, is left as it was.
\<close>

theorem increment_raises_iff_all_true:
  assumes "n < length h"
  shows "(fst (incrementBooleanTree_store d n h) = Inl RecursionError
            \<longleftrightarrow> d \<le> Suc (length (takeWhile (\<lambda>b. b) (rev (h ! n)))))
    \<and> (fst (incrementBooleanTree_store d n h) = Inl IndexError
            \<longleftrightarrow> Suc (length (h ! n)) < d \<and> (\<forall>b \<in> set (h ! n). b))
    \<and> (incrementBooleanTree d (h ! n) = Inl RecursionError
            \<longleftrightarrow> d \<le> Suc (length (takeWhile (\<lambda>b. b) (rev (h ! n)))))
    \<and> (incrementBooleanTree d (h ! n) = Inl IndexError
            \<longleftrightarrow> Suc (length (h ! n)) < d \<and> (\<forall>b \<in> set (h ! n). b))
    \<and> ((\<exists>b \<in> set (h ! n). \<not> b) \<longrightarrow>
           length (takeWhile (\<lambda>b. b) (rev (h ! n))) < length (h ! n))
    \<and> ((\<exists>b \<in> set (h ! n). \<not> b)
          \<and> Suc (length (takeWhile (\<lambda>b. b) (rev (h ! n)))) < d \<longrightarrow>
         (\<exists>a. fst (incrementBooleanTree_store d n h) = Inr a
            \<and> a < length (snd (incrementBooleanTree_store d n h))
            \<and> length h \<le> a
            \<and> incrementBooleanTree d (h ! n) = Inr (snd (incrementBooleanTree_store d n h) ! a)
            \<and> length (snd (incrementBooleanTree_store d n h) ! a) = length (h ! n)))
    \<and> (\<forall>m < length h. snd (incrementBooleanTree_store d n h) ! m = h ! m)"
proof -
  let ?res = "incrementBooleanTree_store d n h"
  let ?t = "length (takeWhile (\<lambda>b. b) (rev (h ! n)))"
  note fst_eq = incrementBooleanTree_store_fst [OF assms, of d]
  have 1: "fst ?res = Inl RecursionError \<longleftrightarrow> d \<le> Suc ?t"
    unfolding fst_eq incrementBooleanTree_RecursionError_iff [symmetric]
    by (simp split: sum.splits)
  have 2: "fst ?res = Inl IndexError \<longleftrightarrow> Suc (length (h ! n)) < d \<and> (\<forall>b \<in> set (h ! n). b)"
    unfolding fst_eq incrementBooleanTree_IndexError_iff [symmetric]
    by (simp split: sum.splits)
  have 5: "(\<exists>b \<in> set (h ! n). \<not> b) \<longrightarrow> ?t < length (h ! n)"
    using trailing_run_less [of "h ! n"] by blast
  have 6: "\<exists>a. fst ?res = Inr a \<and> a < length (snd ?res) \<and> length h \<le> a
      \<and> incrementBooleanTree d (h ! n) = Inr (snd ?res ! a)
      \<and> length (snd ?res ! a) = length (h ! n)"
    if "(\<exists>b \<in> set (h ! n). \<not> b) \<and> Suc ?t < d"
  proof -
    from that obtain r where r: "incrementBooleanTree d (h ! n) = Inr r"
      "length r = length (h ! n)"
      using incrementBooleanTree_Inr [of "h ! n" d] by blast
    have "fst ?res = Inr (Suc (length h))"
      unfolding fst_eq by (simp add: r(1))
    with r incrementBooleanTree_store_new [OF assms r(1)] show ?thesis
      by simp
  qed
  have 7: "\<forall>m < length h. snd ?res ! m = h ! m"
    using incrementBooleanTree_store_old [OF assms] by blast
  from 1 2 5 6 7 show ?thesis
    using incrementBooleanTree_RecursionError_iff [of d "h ! n"]
      incrementBooleanTree_IndexError_iff [of d "h ! n"]
    by blast
qed

theorem increment_raises_iff_all_true_witness:
  "(0::nat) < length [[True, False, True]]
   \<and> incrementBooleanTree_store 3 0 [[True, False, True]]
       = (Inr 2, [[True, False, True], [True, False, True], [True, True, False]])
   \<and> incrementBooleanTree 3 [True, False, True] = Inr [True, True, False]
   \<and> incrementBooleanTree_store 2 0 [[True, False, True]]
       = (Inl RecursionError, [[True, False, True], [True, False, True]])
   \<and> incrementBooleanTree_store 4 0 [[True, True]] = (Inl IndexError, [[True, True], [True, True]])
   \<and> incrementBooleanTree_store 3 0 [[True, True]] = (Inl RecursionError, [[True, True], [True, True]])"
proof -
  have h: "(0::nat) < length [[True, False, True]]" by simp
  have "incrementBooleanTree_store 3 0 [[True, False, True]]
       = (Inr 2, [[True, False, True], [True, False, True], [True, True, False]])"
    by code_simp
  moreover have "incrementBooleanTree_store 2 0 [[True, False, True]]
       = (Inl RecursionError, [[True, False, True], [True, False, True]])"
    by code_simp
  moreover have "incrementBooleanTree_store 4 0 [[True, True]] = (Inl IndexError, [[True, True], [True, True]])"
    by code_simp
  moreover have "incrementBooleanTree_store 3 0 [[True, True]] = (Inl RecursionError, [[True, True], [True, True]])"
    by code_simp
  ultimately show ?thesis
    using increment_raises_iff_all_true [OF h, of 3] by simp
qed

text \<open>
  C6 as stated fails: \<^verbatim>\<open>constructBooleanTree\<close> has no check of its arguments and never
  raises. For a key of more than \<open>width\<close> bits it returns all the bits of the key, and
  for key 0 and width 0 it returns one bit.
\<close>

theorem encode_out_of_range_counterexample:
  "(2::int) ^ 2 \<le> 4 \<and> constructBooleanTree 4 2 = [True, False, False]
   \<and> constructBooleanTree 0 0 = [False]"
  by code_simp

text \<open>
  C6 amended: \<^verbatim>\<open>constructBooleanTree\<close> never raises. Its result is the most significant
  bit first encoding of the key on as many bits as the result is long, and always decodes
  to the key; the length is \<open>width\<close> when \<open>width\<close> is positive and the key is below
  \<open>2 ^ width\<close>, and greater than \<open>width\<close> when the key is \<open>2 ^ width\<close> or more.
\<close>

theorem encode_msb_first:
  "constructBooleanTree (int key) width
       = msb_first_bits (length (constructBooleanTree (int key) width)) key
   \<and> decode (constructBooleanTree (int key) width) = key
   \<and> (0 < width \<longrightarrow> key < 2 ^ width \<longrightarrow>
        constructBooleanTree (int key) width = msb_first_bits width key)
   \<and> (2 ^ width \<le> key \<longrightarrow> width < length (constructBooleanTree (int key) width))"
proof -
  let ?n = "max width (length (bin_digits key))"
  have eq: "constructBooleanTree (int key) width = msb_first_bits ?n key"
    by (rule constructBooleanTree_nonneg)
  have "key < 2 ^ length (bin_digits key)" by (rule bin_digits_bound)
  also have "\<dots> \<le> 2 ^ ?n" by (simp add: power_increasing)
  finally have "key < 2 ^ ?n" .
  then have "decode (msb_first_bits ?n key) = key"
    by (simp add: decode_msb_first_bits)
  moreover have "2 ^ width \<le> key \<longrightarrow> width < ?n"
    using bin_digits_length_gt [of width key] by (auto simp: max_def)
  moreover have "0 < width \<longrightarrow> key < 2 ^ width \<longrightarrow>
      constructBooleanTree (int key) width = msb_first_bits width key"
    by (simp add: constructBooleanTree_in_range)
  ultimately show ?thesis
    using eq by simp
qed

theorem encode_msb_first_witness:
  "(0::nat) < 4 \<and> (5::nat) < 2 ^ 4 \<and> constructBooleanTree (int 5) 4 = msb_first_bits 4 5
   \<and> msb_first_bits 4 5 = [False, True, False, True]
   \<and> (2::nat) ^ 2 \<le> 4 \<and> 2 < length (constructBooleanTree (int 4) 2)"
proof -
  have "msb_first_bits 4 5 = [False, True, False, True]" by code_simp
  then show ?thesis
    using encode_msb_first [of 5 4] encode_msb_first [of 4 2] by simp
qed

lemma h_distance_same: "h_distance m m = 0"
  by (induction m) (auto simp: h_distance_def)

lemma h_distance_Cons:
  "h_distance (a # m) (b # r) = (if a = b then 0 else 1) + h_distance m r"
  by (simp add: h_distance_def)

lemma h_distance_rev:
  "length a = length b \<Longrightarrow> h_distance (rev a) (rev b) = h_distance a b"
proof -
  assume "length a = length b"
  then have "zip (rev a) (rev b) = rev (zip a b)" by (simp add: zip_rev)
  then show ?thesis
    by (simp add: h_distance_def rev_map [symmetric])
qed

lemma h_distance_incBT:
  "incBT_unbounded m = Inr r \<Longrightarrow> h_distance m r = 1 + length (takeWhile (\<lambda>b. b) m)"
proof (induction m arbitrary: r)
  case Nil
  then show ?case by simp
next
  case (Cons h m)
  show ?case
  proof (cases h)
    case True
    with Cons.prems obtain r' where r': "incBT_unbounded m = Inr r'" "r = False # r'"
      by (auto split: sum.splits)
    with Cons.IH True show ?thesis by (simp add: h_distance_Cons)
  next
    case False
    with Cons.prems show ?thesis by (auto simp: h_distance_Cons h_distance_same)
  qed
qed

lemma h_distance_increment:
  assumes "incrementBooleanTree_unbounded bTree = Inr inc"
  shows "h_distance bTree inc = 1 + length (takeWhile (\<lambda>b. b) (rev bTree))"
proof -
  from assms obtain r where r: "incBT_unbounded (rev bTree) = Inr r" "inc = rev r"
    by (auto simp: incrementBooleanTree_unbounded_def split: sum.splits)
  from r(1) have "length r = length bTree" by (auto dest: incBT_length)
  then have "h_distance bTree (rev r) = h_distance (rev bTree) r"
    using h_distance_rev [of "rev bTree" r] by simp
  with r h_distance_incBT [OF r(1)] show ?thesis by simp
qed

lemma stepRight_extends:
  "stepRight_unbounded circuit bTree qubits ancilla = Inr circuit' \<Longrightarrow> length circuit < length circuit'"
proof (induction circuit bTree qubits ancilla arbitrary: circuit' rule: stepRight_unbounded.induct)
  case (1 circuit bTree qubits ancilla)
  from "1.prems" obtain inc where inc: "incrementBooleanTree_unbounded bTree = Inr inc"
    by (subst (asm) stepRight_unbounded.simps) (auto split: sum.splits)
  have d: "h_distance bTree inc \<noteq> 0"
    using h_distance_increment [OF inc] by simp
  show ?case
  proof (cases "h_distance bTree inc = 1 \<or> h_distance bTree inc = 2")
    case True
    with "1.prems" inc show ?thesis
      by (subst (asm) stepRight_unbounded.simps) (auto simp: Let_def split: sum.splits if_splits)
  next
    case False
    with "1.prems" inc d obtain x0 q0 q1 c2 where
      x0: "nth2last qubits 0 = Inr x0" and q0: "nth2last ancilla 0 = Inr q0"
      and q1: "nth2last ancilla 1 = Inr q1"
      and rec: "stepRight_unbounded (circuit @ map Gate (toffoli True True q1 x0 q0))
                  (butlast bTree) (butlast qubits) (butlast ancilla) = Inr c2"
      and c': "circuit' = c2 @ map Gate (toffoli True False q1 x0 q0)"
      by (subst (asm) stepRight_unbounded.simps) (auto simp: Let_def split: sum.splits if_splits)
    from False d have
      "length (circuit @ map Gate (toffoli True True q1 x0 q0)) < length c2"
      using "1.IH" [OF inc refl refl _ _ _ x0 q0 q1 refl refl refl rec] by simp
    with c' show ?thesis by simp
  qed
qed

section \<open>Properties of the tree step\<close>

text \<open>
  What the bound on the stack changes: a function of the tree strategy either raises
  \<^verbatim>\<open>RecursionError\<close> or does what it does on a stack without limit, and it does the
  latter when the room is enough for its calls.
\<close>

lemma walkDown_helper_depth:
  "walkDown_helper d myc bt qbt anc = Inl RecursionError
   \<or> walkDown_helper d myc bt qbt anc = walkDown_helper_unbounded myc bt qbt anc"
  by (induction d myc bt qbt anc rule: walkDown_helper.induct) auto

lemma walkDown_helper_enough:
  "length bt < d \<Longrightarrow>
     walkDown_helper d myc bt qbt anc = walkDown_helper_unbounded myc bt qbt anc"
  by (induction d myc bt qbt anc rule: walkDown_helper.induct) auto

lemma walkDown_depth:
  "walkDown d bTree qubits ancilla = Inl RecursionError
   \<or> walkDown d bTree qubits ancilla = walkDown_unbounded bTree qubits ancilla"
  using walkDown_helper_depth [of "d - 1"]
  by (cases d) (auto simp: walkDown_def walkDown_unbounded_def)

lemma walkDown_enough:
  assumes "0 < d" and "length bTree \<le> d"
  shows "walkDown d bTree qubits ancilla = walkDown_unbounded bTree qubits ancilla"
proof -
  from assms obtain d' where d: "d = Suc d'" by (cases d) auto
  show ?thesis
  proof (cases "1 < length bTree")
    case True
    with assms d have "length (drop 2 bTree) < d'" by simp
    then show ?thesis
      by (simp add: d walkDown_def walkDown_unbounded_def walkDown_helper_enough)
  next
    case False
    then show ?thesis
      by (simp add: d walkDown_def walkDown_unbounded_def)
  qed
qed

lemma stepRight_Suc_same:
  assumes "incrementBooleanTree d bTree = incrementBooleanTree_unbounded bTree"
    and "\<And>c :: ('p, 'q) instr list.
           stepRight d c (butlast bTree) (butlast qubits) (butlast ancilla)
           = stepRight_unbounded c (butlast bTree) (butlast qubits) (butlast ancilla)"
  shows "stepRight (Suc d) (circuit :: ('p, 'q) instr list) bTree qubits ancilla
    = stepRight_unbounded circuit bTree qubits ancilla"
  unfolding stepRight.simps stepRight_unbounded.simps [of circuit bTree qubits ancilla]
    Let_def assms ..

lemma stepRight_enough:
  "length bTree + 3 \<le> d \<Longrightarrow>
     stepRight d circuit bTree qubits ancilla = stepRight_unbounded circuit bTree qubits ancilla"
proof (induction d arbitrary: circuit bTree qubits ancilla)
  case 0
  then show ?case by simp
next
  case (Suc d)
  have inc: "incrementBooleanTree d bTree = incrementBooleanTree_unbounded bTree"
    using Suc.prems trailing_run_le [of bTree] by (simp add: incrementBooleanTree_depth)
  show ?case
  proof (cases "bTree = []")
    case True
    then show ?thesis
      unfolding stepRight.simps stepRight_unbounded.simps [of circuit bTree qubits ancilla] inc
      by (simp add: incrementBooleanTree_unbounded_def)
  next
    case False
    with Suc.prems have "length (butlast bTree) + 3 \<le> d" by (cases bTree) simp_all
    then show ?thesis
      by (intro stepRight_Suc_same inc Suc.IH)
  qed
qed

lemma stepRight_depth:
  "stepRight d (circuit :: ('p, 'q) instr list) bTree qubits ancilla = Inl RecursionError
   \<or> stepRight d circuit bTree qubits ancilla = stepRight_unbounded circuit bTree qubits ancilla"
proof (induction d arbitrary: circuit bTree qubits ancilla)
  case 0
  then show ?case by (simp add: stepRight.simps)
next
  case (Suc d)
  show ?case
  proof (cases "incrementBooleanTree d bTree = Inl RecursionError")
    case True
    then show ?thesis by (simp add: stepRight.simps)
  next
    case False
    then have inc: "incrementBooleanTree d bTree = incrementBooleanTree_unbounded bTree"
      by (simp add: incrementBooleanTree_depth split: if_splits)
    have ret: "stepRight_unbounded c (butlast bTree) (butlast qubits) (butlast ancilla) = Inr x"
      if "stepRight d c (butlast bTree) (butlast qubits) (butlast ancilla) = Inr x"
      for c :: "('p, 'q) instr list" and x
      using that Suc.IH [of c "butlast bTree" "butlast qubits" "butlast ancilla"] by auto
    have err: "e = RecursionError
        \<or> stepRight_unbounded c (butlast bTree) (butlast qubits) (butlast ancilla) = Inl e"
      if "stepRight d c (butlast bTree) (butlast qubits) (butlast ancilla) = Inl e"
      for c :: "('p, 'q) instr list" and e
      using that Suc.IH [of c "butlast bTree" "butlast qubits" "butlast ancilla"] by auto
    show ?thesis
      unfolding stepRight.simps stepRight_unbounded.simps [of circuit bTree qubits ancilla] inc
      by (auto simp: Let_def split: sum.splits dest: ret err)
  qed
qed

lemma stepRight_returns:
  "stepRight d circuit bTree qubits ancilla = Inr circuit' \<Longrightarrow>
     stepRight_unbounded circuit bTree qubits ancilla = Inr circuit'"
  using stepRight_depth [of d circuit bTree qubits ancilla] by auto

text \<open>
  C10: wherever \<^verbatim>\<open>incrementBooleanTree\<close> returns, the Hamming distance between a path
  and its increment is one more than the length of the trailing run of True bits, so it
  is never 0; \<^verbatim>\<open>stepRight\<close> therefore never takes its distance-0 branch, the only one that
  returns the circuit as it was: whenever it returns, whatever the room on the stack, it
  has appended an instruction.
\<close>

theorem distance_zero_unreachable:
  assumes "incrementBooleanTree d bTree = Inr inc"
  shows "h_distance bTree inc = 1 + length (takeWhile (\<lambda>b. b) (rev bTree))
    \<and> 1 \<le> h_distance bTree inc
    \<and> (\<forall>d' circuit qubits ancilla circuit'.
          stepRight d' circuit bTree qubits ancilla = Inr (circuit' :: ('p, 'q) instr list)
            \<longrightarrow> length circuit < length circuit')"
  using h_distance_increment [OF incrementBooleanTree_returns [OF assms]]
    stepRight_extends stepRight_returns
  by fastforce

theorem distance_zero_unreachable_witness:
  "incrementBooleanTree 3 [True, False, True] = Inr [True, True, False]
   \<and> h_distance [True, False, True] [True, True, False] = 2
   \<and> stepRight 4 ([] :: (nat, nat) instr list) [True, False, True] [1, 2] [0, 3, 4]
       = Inr [Gate (CX 3 4), Gate (X 2), Gate (CCX 0 2 4), Gate (X 2), Gate (CX 0 3)]"
proof -
  have h: "incrementBooleanTree 3 [True, False, True] = Inr [True, True, False]"
    by code_simp
  have "stepRight 4 ([] :: (nat, nat) instr list) [True, False, True] [1, 2] [0, 3, 4]
       = Inr [Gate (CX 3 4), Gate (X 2), Gate (CCX 0 2 4), Gate (X 2), Gate (CX 0 3)]"
    by code_simp
  with h distance_zero_unreachable [where 'p = nat and 'q = nat, OF h] show ?thesis by simp
qed

section \<open>Properties of the assembler\<close>

lemma fold_pauli_body:
  "fold (pauli_body ctrl) xs acc
     = acc @ concat (map (\<lambda>(p, tq). axis_instructions ctrl p tq) xs)"
  by (induction xs arbitrary: acc) (auto simp: pauli_body_def axis_instructions_def)

lemma controlled_pauli_gate_concat:
  "controlled_pauli_gate pauliString ctrl targets
     = concat (map (\<lambda>(p, tq). axis_instructions ctrl p tq) (zip pauliString targets))"
  by (simp add: controlled_pauli_gate_def fold_pauli_body)

lemma fold_gate_seq:
  "fold (\<lambda>term operator_generators. operator_generators @ [gate_seq term]) terms acc
     = acc @ map gate_seq terms"
  by (induction terms arbitrary: acc) auto

lemma convert_hamiltonian_terms_to_operators_map:
  "convert_hamiltonian_terms_to_operators terms = map gate_seq terms"
  by (simp add: convert_hamiltonian_terms_to_operators_def fold_gate_seq)

text \<open>
  C7: the generator of a term with a negative coefficient emits a \<open>Z\<close> on the activation
  bit followed by the instructions of the axes; the generator of any other term emits
  the instructions of the axes only. An axis \<open>X\<close> gives a controlled flip, \<open>Z\<close> a controlled
  phase, \<open>Y\<close> a controlled flip between the inverse of \<open>S\<close> and \<open>S\<close> on the target, and any
  other label nothing.
\<close>

theorem term_generator_sign_and_axes:
  "length (convert_hamiltonian_terms_to_operators terms :: ('q \<Rightarrow> 'q list \<Rightarrow> 'q gate list) list)
      = length terms
   \<and> (\<forall>i < length terms.
        (convert_hamiltonian_terms_to_operators terms ! i) ctrl (targets :: 'q list)
          = (if snd (terms ! i) < 0 then [Z ctrl] else [])
            @ concat (map (\<lambda>(p, tq).
                 if p = CHR ''X'' then [CX ctrl tq]
                 else if p = CHR ''Z'' then [CZ ctrl tq]
                 else if p = CHR ''Y'' then [S_inv tq, CX ctrl tq, S tq]
                 else []) (zip (fst (terms ! i)) targets)))"
  by (simp add: convert_hamiltonian_terms_to_operators_map gate_seq_def
      controlled_pauli_gate_concat axis_instructions_def)

theorem term_generator_sign_and_axes_witness:
  "(0::nat) < length [(''XIYZ'', - 1 :: real), (''ZX'', 1 / 2)]
   \<and> (convert_hamiltonian_terms_to_operators [(''XIYZ'', - 1), (''ZX'', 1 / 2)] ! 0) (0::nat) [1, 2, 3, 4]
       = [Z 0, CX 0 1, S_inv 3, CX 0 3, S 3, CZ 0 4]
   \<and> (convert_hamiltonian_terms_to_operators [(''XIYZ'', - 1), (''ZX'', 1 / 2)] ! 1) (0::nat) [1, 2, 3, 4]
       = [CZ 0 1, CX 0 2]"
  using term_generator_sign_and_axes [of "[(''XIYZ'', - 1), (''ZX'', 1 / 2)]" "0::nat" "[1, 2, 3, 4]"]
  by (simp add: nth_Cons')

section \<open>Properties of the walk\<close>

text \<open>
  C8: for an empty range of keys (\<open>pos1 = pos2\<close>) \<^verbatim>\<open>applyAndWalk\<close> returns the empty
  circuit; \<^verbatim>\<open>qrom\<close> does so for the empty list of keys.
\<close>

theorem empty_range_is_noop:
  "applyAndWalk operators pos pos ctl_q sel_q anc_q tgt_q = Inr []
   \<and> qrom qubits_a qubits_b qubit_s qubits_t width [] operators = Inr []"
  by (simp add: applyAndWalk_def qrom_def)

lemma div_power_shift: "i \<le> j \<Longrightarrow> (k::nat) div 2 ^ j = (k div 2 ^ i) div 2 ^ (j - i)"
  by (simp add: div_mult2_eq [symmetric] power_add [symmetric])

lemma div_power_eq_mono:
  "(a::nat) div 2 ^ i = b div 2 ^ i \<Longrightarrow> i \<le> j \<Longrightarrow> a div 2 ^ j = b div 2 ^ j"
  by (simp add: div_power_shift [of i j])

lemma key_bit_differs:
  assumes "(a::nat) div 2 ^ (c + 1) = b div 2 ^ (c + 1)" and "a div 2 ^ c \<noteq> b div 2 ^ c"
  shows "key_bit a c \<noteq> key_bit b c"
proof -
  have shift: "k div 2 ^ (c + 1) = (k div 2 ^ c) div 2" for k :: nat
    using div_mult2_eq [of k "2 ^ c" 2] by (simp add: mult.commute)
  have "a div 2 ^ c = 2 * (a div 2 ^ (c + 1)) + (a div 2 ^ c) mod 2"
    unfolding shift by simp
  moreover have "b div 2 ^ c = 2 * (b div 2 ^ (c + 1)) + (b div 2 ^ c) mod 2"
    unfolding shift by simp
  ultimately have "(a div 2 ^ c) mod 2 \<noteq> (b div 2 ^ c) mod 2"
    using assms by metis
  moreover have "(a div 2 ^ c) mod 2 < 2" "(b div 2 ^ c) mod 2 < 2" by simp_all
  ultimately show ?thesis by linarith
qed

lemma key_bit_agrees:
  assumes "(a::nat) div 2 ^ (c + 1) = b div 2 ^ (c + 1)" and "c < j"
  shows "key_bit a j = key_bit b j"
  using div_power_eq_mono [OF assms(1), of j] assms(2) by simp

lemma highest_differing_bit:
  assumes "(prev::nat) \<noteq> key" "prev < 2 ^ W" "key < 2 ^ W"
  obtains c where "c < W"
    and "prev div 2 ^ (c + 1) = key div 2 ^ (c + 1)"
    and "prev div 2 ^ c \<noteq> key div 2 ^ c"
    and "\<forall>i < c. prev div 2 ^ (i + 1) \<noteq> key div 2 ^ (i + 1)"
proof -
  let ?P = "\<lambda>c. prev div 2 ^ (c + 1) = key div 2 ^ (c + 1)"
  define c where "c = (LEAST c. ?P c)"
  from assms have W: "0 < W" by (cases W) auto
  from assms have PW: "?P (W - 1)" using W by simp
  then have Pc: "?P c" unfolding c_def by (rule LeastI)
  from PW have "c \<le> W - 1" unfolding c_def by (rule Least_le)
  with W have cW: "c < W" by simp
  have least: "\<forall>i < c. \<not> ?P i"
    unfolding c_def using not_less_Least by blast
  have "prev div 2 ^ c \<noteq> key div 2 ^ c"
  proof (cases c)
    case 0
    with assms show ?thesis by simp
  next
    case (Suc d)
    with least show ?thesis by simp
  qed
  with cW Pc least show ?thesis by (intro that) auto
qed

lemma clear_loop_run:
  assumes "\<forall>i. ci \<le> i \<and> i < c \<longrightarrow> prev div 2 ^ (i + 1) \<noteq> key div 2 ^ (i + 1)"
    and "prev div 2 ^ (c + 1) = key div 2 ^ (c + 1)"
    and "ci \<le> c" and "c < length ancQubits" and "c \<le> length addrQubits"
  shows "clear_loop prev key addrQubits ancQubits ci circuit
    = Inr (c, circuit @ concat (map (inner_chain_gate prev addrQubits ancQubits) [ci..<c]))"
  using assms
proof (induction "c - ci" arbitrary: ci circuit)
  case 0
  then have "ci = c" by simp
  with 0 show ?case by (simp add: clear_loop.simps [of prev key addrQubits ancQubits c])
next
  case (Suc d)
  then have lt: "ci < c" by simp
  with Suc.prems have ne: "prev div 2 ^ (ci + 1) \<noteq> key div 2 ^ (ci + 1)" by simp
  from Suc.hyps(2) have d: "d = c - (ci + 1)" by simp
  have "clear_loop prev key addrQubits ancQubits (ci + 1)
          (circuit @ inner_chain_gate prev addrQubits ancQubits ci)
      = Inr (c, (circuit @ inner_chain_gate prev addrQubits ancQubits ci)
               @ concat (map (inner_chain_gate prev addrQubits ancQubits) [ci + 1..<c]))"
    using Suc.prems lt by (intro Suc.hyps(1) [OF d]) auto
  with ne lt Suc.prems show ?case
    by (simp add: clear_loop.simps [of prev key addrQubits ancQubits ci] inner_chain_gate_def
        upt_conv_Cons [of ci c])
qed

lemma rebuild_loop_run:
  assumes "c < length ancQubits" and "c \<le> length addrQubits"
  shows "rebuild_loop key addrQubits ancQubits c circuit
    = Inr (circuit @ concat (map (inner_chain_gate key addrQubits ancQubits) (rev [0..<c])))"
  using assms
  by (induction c arbitrary: circuit) (simp_all add: inner_chain_gate_def)

text \<open>
  C4: for keys \<open>prev_key < next_key\<close> below \<open>2 ^ W\<close> there is an index \<open>c\<close>, the most
  significant bit at which the keys differ, such that the clearing loop ends with
  \<open>ci = c\<close> after the chain gates of \<open>prev_key\<close> for the bits \<open>0, \<dots>, c - 1\<close>, and the
  transition is these gates, then one controlled NOT on ancilla \<open>c\<close> from ancilla \<open>c + 1\<close>
  (from the enable bit when \<open>c + 1 = W\<close>), then the chain gates of \<open>next_key\<close> for the
  bits \<open>c - 1, \<dots>, 0\<close>.
\<close>

theorem transition_at_highest_differing_bit:
  assumes "prev_key < next_key" and "next_key < 2 ^ W"
    and "length (addrQubits :: 'q list) = W" and "length ancQubits = W"
  shows "\<exists>c < W.
      key_bit prev_key c \<noteq> key_bit next_key c
    \<and> (\<forall>j > c. key_bit prev_key j = key_bit next_key j)
    \<and> clear_loop prev_key next_key addrQubits ancQubits 0 (circuit :: ('p, 'q) instr list)
        = Inr (c, circuit @ concat (map (inner_chain_gate prev_key addrQubits ancQubits) [0..<c]))
    \<and> transition W prev_key next_key selQubit addrQubits ancQubits circuit
        = Inr (circuit
            @ concat (map (inner_chain_gate prev_key addrQubits ancQubits) [0..<c])
            @ [Gate (CX (if c + 1 = W then selQubit else ancQubits ! (c + 1)) (ancQubits ! c))]
            @ concat (map (inner_chain_gate next_key addrQubits ancQubits) (rev [0..<c])))"
proof -
  from assms have "prev_key \<noteq> next_key" "prev_key < 2 ^ W" by simp_all
  from this(1) this(2) assms(2) obtain c where c: "c < W"
    and eq: "prev_key div 2 ^ (c + 1) = next_key div 2 ^ (c + 1)"
    and ne: "prev_key div 2 ^ c \<noteq> next_key div 2 ^ c"
    and below: "\<forall>i < c. prev_key div 2 ^ (i + 1) \<noteq> next_key div 2 ^ (i + 1)"
    by (rule highest_differing_bit)
  have clear: "clear_loop prev_key next_key addrQubits ancQubits 0 circuit
      = Inr (c, circuit @ concat (map (inner_chain_gate prev_key addrQubits ancQubits) [0..<c]))"
    using below eq c assms(3,4) by (intro clear_loop_run) auto
  have rebuild: "rebuild_loop next_key addrQubits ancQubits c circuit'
      = Inr (circuit' @ concat (map (inner_chain_gate next_key addrQubits ancQubits) (rev [0..<c])))"
    for circuit' :: "('p, 'q) instr list"
    using c assms(3,4) by (intro rebuild_loop_run) auto
  have "transition W prev_key next_key selQubit addrQubits ancQubits circuit
        = Inr (circuit
            @ concat (map (inner_chain_gate prev_key addrQubits ancQubits) [0..<c])
            @ [Gate (CX (if c + 1 = W then selQubit else ancQubits ! (c + 1)) (ancQubits ! c))]
            @ concat (map (inner_chain_gate next_key addrQubits ancQubits) (rev [0..<c])))"
    using c assms(3,4) by (auto simp: transition_def clear flip_gate_def rebuild)
  with c clear key_bit_differs [OF eq ne] key_bit_agrees [OF eq] show ?thesis
    by blast
qed

theorem transition_at_highest_differing_bit_witness:
  "(1::nat) < 2 \<and> (2::nat) < 2 ^ 2 \<and> length [2, 1 :: nat] = 2 \<and> length [4, 3 :: nat] = 2
   \<and> (\<exists>c < 2.
      key_bit 1 c \<noteq> key_bit 2 c
    \<and> (\<forall>j > c. key_bit 1 j = key_bit 2 j)
    \<and> clear_loop 1 2 [2, 1] [4, 3] 0 ([] :: (nat, nat) instr list)
        = Inr (c, [] @ concat (map (inner_chain_gate 1 [2, 1] [4, 3]) [0..<c]))
    \<and> transition 2 1 2 0 [2, 1] [4, 3] ([] :: (nat, nat) instr list)
        = Inr ([]
            @ concat (map (inner_chain_gate 1 [2, 1] [4, 3]) [0..<c])
            @ [Gate (CX (if c + 1 = 2 then 0 else [4, 3] ! (c + 1)) ([4, 3] ! c))]
            @ concat (map (inner_chain_gate 2 [2, 1] [4, 3]) (rev [0..<c]))))
   \<and> transition 2 1 2 0 [2, 1] [4, 3] ([] :: (nat, nat) instr list)
        = Inr [Gate (CCX 3 2 4), Gate (CX 0 3), Gate (X 2), Gate (CCX 3 2 4), Gate (X 2)]"
proof -
  have "transition 2 1 2 0 [2, 1] [4, 3] ([] :: (nat, nat) instr list)
        = Inr [Gate (CCX 3 2 4), Gate (CX 0 3), Gate (X 2), Gate (CCX 3 2 4), Gate (X 2)]"
    by code_simp
  then show ?thesis
    using transition_at_highest_differing_bit
      [of 1 2 2 "[2, 1 :: nat]" "[4, 3]" "[] :: (nat, nat) instr list" 0]
    by simp
qed

section \<open>The effect of the gates on a register\<close>

lemma exec_append: "exec eff (c1 @ c2) r = exec eff c2 (exec eff c1 r)"
  by (simp add: exec_def)

lemma exec_Nil: "exec eff [] r = r"
  by (simp add: exec_def)

lemma exec_gates: "exec eff (map Gate gs) r = r\<lparr>bits := fold exec_gate gs (bits r)\<rparr>"
  by (induction gs arbitrary: r) (simp_all add: exec_def)

lemma exec_toffoli:
  assumes "c0 \<noteq> t" and "c1 \<noteq> t" and "c0 \<noteq> c1"
  shows "fold exec_gate (toffoli b0 b1 c0 c1 t) f
    = f(t := (f t \<noteq> ((f c0 = b0) \<and> (f c1 = b1))))"
  using assms by (cases b0; cases b1) (auto simp: toffoli_def fun_eq_iff)

lemma chain_bits_anc:
  assumes "distinct ancQubits" and "i < length ancQubits"
  shows "chain_bits f selQubit addrQubits ancQubits k c (ancQubits ! i)
    = (if c \<le> i then chain_val f selQubit addrQubits ancQubits k i else f (ancQubits ! i))"
proof (cases "c \<le> i")
  case True
  with assms have "find (\<lambda>j. ancQubits ! j = ancQubits ! i) [c..<length ancQubits] = Some i"
    by (auto simp: find_Some_iff nth_eq_iff_index_eq intro!: exI [of _ "i - c"])
  then show ?thesis using True by (simp add: chain_bits_def)
next
  case False
  with assms have "find (\<lambda>j. ancQubits ! j = ancQubits ! i) [c..<length ancQubits] = None"
    by (auto simp: find_None_iff nth_eq_iff_index_eq)
  then show ?thesis using False by (simp add: chain_bits_def)
qed

lemma chain_bits_other:
  assumes "q \<notin> set ancQubits"
  shows "chain_bits f selQubit addrQubits ancQubits k c q = f q"
proof -
  from assms have "find (\<lambda>j. ancQubits ! j = q) [c..<length ancQubits] = None"
    by (auto simp: find_None_iff)
  then show ?thesis by (simp add: chain_bits_def)
qed

lemma chain_bits_top:
  "chain_bits f selQubit addrQubits ancQubits k (length ancQubits) = f"
  by (simp add: chain_bits_def fun_eq_iff)

lemma chain_ctl_val:
  assumes "distinct (selQubit # addrQubits @ ancQubits)" and "length ancQubits = W" and "i < W"
  shows "chain_bits f selQubit addrQubits ancQubits k (Suc i) (chain_ctl W selQubit ancQubits i)
    = chain_val f selQubit addrQubits ancQubits k (Suc i)"
proof (cases "Suc i = W")
  case True
  with assms show ?thesis
    by (simp add: chain_ctl_def chain_bits_other chain_val.simps [of _ _ _ _ _ W])
next
  case False
  with assms show ?thesis
    by (simp add: chain_ctl_def chain_bits_anc)
qed

lemma chain_ctl_neq:
  assumes "distinct (selQubit # addrQubits @ ancQubits)" and "length ancQubits = W"
    and "length addrQubits = W" and "i < W"
  shows "chain_ctl W selQubit ancQubits i \<noteq> ancQubits ! i"
    and "addrQubits ! i \<noteq> ancQubits ! i"
    and "chain_ctl W selQubit ancQubits i \<noteq> addrQubits ! i"
    and "addrQubits ! i \<notin> set ancQubits"
proof -
  from assms have mem: "addrQubits ! i \<in> set addrQubits" "ancQubits ! i \<in> set ancQubits"
    "Suc i \<noteq> W \<Longrightarrow> ancQubits ! Suc i \<in> set ancQubits"
    by simp_all
  from assms have "Suc i \<noteq> W \<Longrightarrow> ancQubits ! Suc i \<noteq> ancQubits ! i"
    by (simp add: nth_eq_iff_index_eq)
  with mem assms(1) show "chain_ctl W selQubit ancQubits i \<noteq> ancQubits ! i"
    and "addrQubits ! i \<noteq> ancQubits ! i"
    and "chain_ctl W selQubit ancQubits i \<noteq> addrQubits ! i"
    and "addrQubits ! i \<notin> set ancQubits"
    by (auto simp: chain_ctl_def)
qed

text \<open>The chain gate at bit \<open>i\<close> computes ancilla \<open>i\<close> of the chain, and uncomputes it.\<close>

lemma chain_gate_builds:
  assumes "distinct (selQubit # addrQubits @ ancQubits)" and "length ancQubits = W"
    and "length addrQubits = W" and "i < W"
  shows "fold exec_gate (chain_gate_at W k selQubit addrQubits ancQubits i)
           (chain_bits f selQubit addrQubits ancQubits k (Suc i))
         = chain_bits f selQubit addrQubits ancQubits k i"
proof -
  let ?g = "chain_bits f selQubit addrQubits ancQubits k (Suc i)"
  note neq = chain_ctl_neq [OF assms]
  from assms have d: "distinct ancQubits" by simp
  have "fold exec_gate (chain_gate_at W k selQubit addrQubits ancQubits i) ?g
      = ?g(ancQubits ! i := (?g (ancQubits ! i) \<noteq>
           ((?g (chain_ctl W selQubit ancQubits i) = True) \<and> (?g (addrQubits ! i) = key_bit k i))))"
    unfolding chain_gate_at_def using neq by (intro exec_toffoli) auto
  also have "\<dots> = ?g(ancQubits ! i := chain_val f selQubit addrQubits ancQubits k i)"
    using assms d neq(4)
    by (simp add: chain_ctl_val [OF assms(1,2,4)] chain_bits_anc chain_bits_other
        chain_val.simps [of f selQubit addrQubits ancQubits k i])
  also have "\<dots> = chain_bits f selQubit addrQubits ancQubits k i"
  proof
    fix q
    show "(?g(ancQubits ! i := chain_val f selQubit addrQubits ancQubits k i)) q
        = chain_bits f selQubit addrQubits ancQubits k i q"
    proof (cases "q \<in> set ancQubits")
      case True
      then obtain j where j: "j < length ancQubits" "q = ancQubits ! j"
        by (auto simp: in_set_conv_nth)
      with d assms(2,4) show ?thesis
        by (auto simp: chain_bits_anc nth_eq_iff_index_eq)
    next
      case False
      with assms(2,4) have "q \<noteq> ancQubits ! i" by auto
      with False show ?thesis by (simp add: chain_bits_other)
    qed
  qed
  finally show ?thesis .
qed

lemma chain_gate_involution:
  assumes "distinct (selQubit # addrQubits @ ancQubits)" and "length ancQubits = W"
    and "length addrQubits = W" and "i < W"
  shows "fold exec_gate (chain_gate_at W k selQubit addrQubits ancQubits i)
           (fold exec_gate (chain_gate_at W k selQubit addrQubits ancQubits i) g) = g"
proof -
  note neq = chain_ctl_neq [OF assms]
  have step: "fold exec_gate (chain_gate_at W k selQubit addrQubits ancQubits i) h
      = h(ancQubits ! i := (h (ancQubits ! i) \<noteq>
           ((h (chain_ctl W selQubit ancQubits i) = True) \<and> (h (addrQubits ! i) = key_bit k i))))"
    for h
    unfolding chain_gate_at_def using neq by (intro exec_toffoli) auto
  show ?thesis
    unfolding step using neq by (auto simp: fun_eq_iff)
qed

lemma chain_gate_clears:
  assumes "distinct (selQubit # addrQubits @ ancQubits)" and "length ancQubits = W"
    and "length addrQubits = W" and "i < W"
  shows "fold exec_gate (chain_gate_at W k selQubit addrQubits ancQubits i)
           (chain_bits f selQubit addrQubits ancQubits k i)
         = chain_bits f selQubit addrQubits ancQubits k (Suc i)"
  using chain_gate_involution [OF assms, of k "chain_bits f selQubit addrQubits ancQubits k (Suc i)"]
  by (simp add: chain_gate_builds [OF assms])

lemma chain_val_key_cong:
  assumes "\<forall>j \<ge> i. key_bit k j = key_bit k' j"
  shows "chain_val f selQubit addrQubits ancQubits k i
       = chain_val f selQubit addrQubits ancQubits k' i"
  using assms
proof (induction "length ancQubits - i" arbitrary: i)
  case 0
  then show ?case
    by (simp add: chain_val.simps [of f selQubit addrQubits ancQubits _ i])
next
  case (Suc d)
  then have "chain_val f selQubit addrQubits ancQubits k (Suc i)
       = chain_val f selQubit addrQubits ancQubits k' (Suc i)"
    by (intro Suc.hyps(1)) auto
  with Suc.prems show ?case
    by (simp add: chain_val.simps [of f selQubit addrQubits ancQubits _ i])
qed

lemma chain_val_bits_cong:
  assumes "f selQubit = g selQubit"
    and "\<forall>j < length ancQubits. f (ancQubits ! j) = g (ancQubits ! j)
           \<and> f (addrQubits ! j) = g (addrQubits ! j)"
  shows "chain_val f selQubit addrQubits ancQubits k i
       = chain_val g selQubit addrQubits ancQubits k i"
  using assms
proof (induction "length ancQubits - i" arbitrary: i)
  case 0
  then show ?case
    by (simp add: chain_val.simps [of _ selQubit addrQubits ancQubits k i])
next
  case (Suc d)
  then have "chain_val f selQubit addrQubits ancQubits k (Suc i)
       = chain_val g selQubit addrQubits ancQubits k (Suc i)"
    by (intro Suc.hyps(1)) auto
  moreover from Suc.hyps(2) have "i < length ancQubits" by simp
  ultimately show ?case
    using Suc.prems
    by (simp add: chain_val.simps [of _ selQubit addrQubits ancQubits k i])
qed

text \<open>
  The controlled NOT of a transition turns the chain of the previous key, built down to
  the highest differing bit \<open>c\<close>, into the chain of the new key built down to \<open>c\<close>.
\<close>

lemma flip_gate_switches:
  assumes "distinct (selQubit # addrQubits @ ancQubits)" and "length ancQubits = W"
    and "length addrQubits = W" and "c < W"
    and "key_bit prev c \<noteq> key_bit key c"
    and "\<forall>j > c. key_bit prev j = key_bit key j"
  shows "exec_gate (CX (chain_ctl W selQubit ancQubits c) (ancQubits ! c))
           (chain_bits f selQubit addrQubits ancQubits prev c)
         = chain_bits f selQubit addrQubits ancQubits key c"
proof
  fix q
  let ?g = "chain_bits f selQubit addrQubits ancQubits prev c"
  from assms have d: "distinct ancQubits" by simp
  note neq = chain_ctl_neq [OF assms(1-4)]
  have above: "chain_val f selQubit addrQubits ancQubits prev j
       = chain_val f selQubit addrQubits ancQubits key j" if "c < j" for j
    using assms(6) that by (intro chain_val_key_cong) auto
  have ctl: "?g (chain_ctl W selQubit ancQubits c)
       = chain_val f selQubit addrQubits ancQubits prev (Suc c)"
  proof (cases "Suc c = W")
    case True
    with assms show ?thesis
      by (simp add: chain_ctl_def chain_bits_other chain_val.simps [of _ _ _ _ _ W])
  next
    case False
    with assms d show ?thesis
      by (simp add: chain_ctl_def chain_bits_anc)
  qed
  show "exec_gate (CX (chain_ctl W selQubit ancQubits c) (ancQubits ! c)) ?g q
         = chain_bits f selQubit addrQubits ancQubits key c q"
  proof (cases "q \<in> set ancQubits")
    case True
    then obtain j where j: "j < length ancQubits" "q = ancQubits ! j"
      by (auto simp: in_set_conv_nth)
    show ?thesis
    proof (cases "j = c")
      case True
      with j d assms(2,4,5) ctl above [of "Suc c"] show ?thesis
        by (auto simp: chain_bits_anc
            chain_val.simps [of f selQubit addrQubits ancQubits _ c])
    next
      case False
      with j d assms(2,4) above [of j] show ?thesis
        by (auto simp: chain_bits_anc nth_eq_iff_index_eq)
    qed
  next
    case False
    with assms(2,4) have "q \<noteq> ancQubits ! c" by auto
    with False show ?thesis by (simp add: chain_bits_other)
  qed
qed

lemma fold_chain_gates_up:
  assumes "distinct (selQubit # addrQubits @ ancQubits)" and "length ancQubits = W"
    and "length addrQubits = W" and "c \<le> n" and "n \<le> W"
  shows "fold exec_gate (concat (map (chain_gate_at W k selQubit addrQubits ancQubits) [c..<n]))
           (chain_bits f selQubit addrQubits ancQubits k c)
         = chain_bits f selQubit addrQubits ancQubits k n"
  using assms(4,5)
proof (induction n)
  case 0
  then show ?case by simp
next
  case (Suc n)
  show ?case
  proof (cases "c = Suc n")
    case True
    then show ?thesis by simp
  next
    case False
    with Suc have "c \<le> n" "n < W" by simp_all
    with Suc.IH chain_gate_clears [OF assms(1-3) \<open>n < W\<close>, of k f] show ?thesis
      by simp
  qed
qed

lemma fold_chain_gates_down:
  assumes "distinct (selQubit # addrQubits @ ancQubits)" and "length ancQubits = W"
    and "length addrQubits = W" and "n \<le> W"
  shows "fold exec_gate (concat (map (chain_gate_at W k selQubit addrQubits ancQubits) (rev [0..<n])))
           (chain_bits f selQubit addrQubits ancQubits k n)
         = chain_bits f selQubit addrQubits ancQubits k 0"
  using assms(4)
proof (induction n)
  case 0
  then show ?case by simp
next
  case (Suc n)
  then have "n < W" by simp
  with Suc chain_gate_builds [OF assms(1-3) \<open>n < W\<close>, of k f] show ?case
    by simp
qed

lemma chain_gate_run:
  assumes "length ancQubits = W" and "length addrQubits = W" and "i < W"
  shows "chain_gate W k selQubit addrQubits ancQubits i circuit
    = Inr (circuit @ map Gate (chain_gate_at W k selQubit addrQubits ancQubits i))"
  using assms by (auto simp: chain_gate_def chain_gate_at_def chain_ctl_def)

lemma for_each_run:
  assumes "\<And>x s. x \<in> set xs \<Longrightarrow> body x s = Inr (s @ g x)"
  shows "for_each xs body s = Inr (s @ concat (map g xs))"
  using assms by (induction xs arbitrary: s) simp_all

lemma for_each_chain_gate:
  assumes "length ancQubits = W" and "length addrQubits = W" and "set xs \<subseteq> {..<W}"
  shows "for_each xs (chain_gate W k selQubit addrQubits ancQubits) circuit
    = Inr (circuit @ concat (map (\<lambda>i. map Gate (chain_gate_at W k selQubit addrQubits ancQubits i)) xs))"
  using assms by (intro for_each_run chain_gate_run) auto

lemma concat_map_Gate: "concat (map (\<lambda>i. map Gate (g i)) xs) = map Gate (concat (map g xs))"
  by (simp add: map_concat comp_def)

lemma inner_chain_gate_eq:
  "Suc i \<noteq> W \<Longrightarrow> inner_chain_gate k addrQubits ancQubits i
     = map Gate (chain_gate_at W k selQubit addrQubits ancQubits i)"
  by (simp add: inner_chain_gate_def chain_gate_at_def chain_ctl_def)

lemma write_bits_other: "q \<notin> set qs \<Longrightarrow> write_bits qs vs f q = f q"
proof -
  assume "q \<notin> set qs"
  then have "map_of (zip qs vs) q = None"
    by (auto simp: map_of_eq_None_iff dest: set_zip_leftD)
  then show ?thesis by (simp add: write_bits_def)
qed

lemma chain_val_write_bits:
  assumes "set targets \<inter> set (selQubit # addrQubits @ ancQubits) = {}"
    and "length addrQubits = length ancQubits"
  shows "chain_val (write_bits targets vs f) selQubit addrQubits ancQubits k i
       = chain_val f selQubit addrQubits ancQubits k i"
proof (rule chain_val_bits_cong)
  from assms show "write_bits targets vs f selQubit = f selQubit"
    by (intro write_bits_other) auto
  show "\<forall>j<length ancQubits.
       write_bits targets vs f (ancQubits ! j) = f (ancQubits ! j) \<and>
       write_bits targets vs f (addrQubits ! j) = f (addrQubits ! j)"
  proof (intro allI impI conjI)
    fix j assume j: "j < length ancQubits"
    with assms have "ancQubits ! j \<notin> set targets" "addrQubits ! j \<notin> set targets"
      by (auto dest: nth_mem)
    then show "write_bits targets vs f (ancQubits ! j) = f (ancQubits ! j)"
      and "write_bits targets vs f (addrQubits ! j) = f (addrQubits ! j)"
      by (simp_all add: write_bits_other)
  qed
qed

lemma chain_bits_write_bits:
  assumes "set targets \<inter> set (selQubit # addrQubits @ ancQubits) = {}"
    and "length addrQubits = length ancQubits"
  shows "chain_bits (write_bits targets vs f) selQubit addrQubits ancQubits k c
       = write_bits targets vs (chain_bits f selQubit addrQubits ancQubits k c)"
proof
  fix q
  show "chain_bits (write_bits targets vs f) selQubit addrQubits ancQubits k c q
      = write_bits targets vs (chain_bits f selQubit addrQubits ancQubits k c) q"
  proof (cases "find (\<lambda>i. ancQubits ! i = q) [c..<length ancQubits]")
    case None
    then show ?thesis
      by (simp add: chain_bits_def write_bits_def split: option.splits)
  next
    case (Some i)
    then have "i < length ancQubits" "ancQubits ! i = q"
      by (auto simp: find_Some_iff)
    with assms have "q \<notin> set targets" by (auto dest: nth_mem)
    with Some show ?thesis
      by (simp add: chain_bits_def write_bits_other chain_val_write_bits [OF assms])
  qed
qed

lemma map_chain_bits_targets:
  assumes "set targets \<inter> set (selQubit # addrQubits @ ancQubits) = {}"
  shows "map (chain_bits f selQubit addrQubits ancQubits k c) targets = map f targets"
  using assms by (intro map_cong) (auto simp: chain_bits_other)

lemma fire_chained:
  assumes "set targets \<inter> set (selQubit # addrQubits @ ancQubits) = {}"
    and "length addrQubits = length ancQubits"
  shows "fire eff p targets (chained selQubit addrQubits ancQubits k c r)
       = chained selQubit addrQubits ancQubits k c (fire eff p targets r)"
  by (simp add: fire_def chained_def chain_bits_write_bits [OF assms]
      map_chain_bits_targets [OF assms(1)])

lemma exec_Apply_chained:
  assumes "distinct (selQubit # addrQubits @ ancQubits)" and "length ancQubits = W"
    and "length addrQubits = W" and "0 < W"
    and "set targets \<inter> set (selQubit # addrQubits @ ancQubits) = {}"
  shows "exec eff [Apply p (ancQubits ! 0) targets] (chained selQubit addrQubits ancQubits k 0 r)
       = chained selQubit addrQubits ancQubits k 0
           (if chain_val (bits r) selQubit addrQubits ancQubits k 0
            then fire eff p targets r else r)"
proof -
  from assms have "bits (chained selQubit addrQubits ancQubits k 0 r) (ancQubits ! 0)
      = chain_val (bits r) selQubit addrQubits ancQubits k 0"
    by (simp add: chained_def chain_bits_anc)
  with assms show ?thesis
    by (simp add: exec_def fire_chained)
qed

lemma exec_gates_chained:
  assumes "\<And>f. fold exec_gate g (chain_bits f selQubit addrQubits ancQubits k c)
              = chain_bits f selQubit addrQubits ancQubits k' c'"
  shows "exec eff (map Gate g) (chained selQubit addrQubits ancQubits k c r)
       = chained selQubit addrQubits ancQubits k' c' r"
  by (simp add: exec_gates chained_def assms)

lemma transition_run:
  assumes "distinct (selQubit # addrQubits @ ancQubits)" and "length ancQubits = W"
    and "length addrQubits = W" and "prev < key" and "key < 2 ^ W"
  shows "\<exists>g. (\<forall>circuit :: ('p, 'q) instr list.
            transition W prev key selQubit addrQubits ancQubits circuit = Inr (circuit @ map Gate g))
          \<and> (\<forall>f. fold exec_gate g (chain_bits f selQubit addrQubits ancQubits prev 0)
                 = chain_bits f selQubit addrQubits ancQubits key 0)"
proof -
  from assms have "prev \<noteq> key" "prev < 2 ^ W" by simp_all
  from this(1) this(2) assms(5) obtain c where c: "c < W"
    and eq: "prev div 2 ^ (c + 1) = key div 2 ^ (c + 1)"
    and ne: "prev div 2 ^ c \<noteq> key div 2 ^ c"
    and below: "\<forall>i < c. prev div 2 ^ (i + 1) \<noteq> key div 2 ^ (i + 1)"
    by (rule highest_differing_bit)
  let ?G = "chain_gate_at W"
  let ?up = "concat (map (?G prev selQubit addrQubits ancQubits) [0..<c])"
  let ?down = "concat (map (?G key selQubit addrQubits ancQubits) (rev [0..<c]))"
  let ?cx = "CX (chain_ctl W selQubit ancQubits c) (ancQubits ! c)"
  have inner: "map (inner_chain_gate k addrQubits ancQubits) xs
      = map (\<lambda>i. map Gate (?G k selQubit addrQubits ancQubits i)) xs"
    if "\<forall>x \<in> set xs. x < c" for k xs
    using that c by (intro map_cong refl inner_chain_gate_eq) auto
  have "map (inner_chain_gate prev addrQubits ancQubits) [0..<c]
      = map (\<lambda>i. map Gate (?G prev selQubit addrQubits ancQubits i)) [0..<c]"
    by (rule inner) simp
  then have inner_up:
    "concat (map (inner_chain_gate prev addrQubits ancQubits) [0..<c]) = map Gate ?up"
    unfolding concat_map_Gate [symmetric] by (rule arg_cong)
  have "map (inner_chain_gate key addrQubits ancQubits) (rev [0..<c])
      = map (\<lambda>i. map Gate (?G key selQubit addrQubits ancQubits i)) (rev [0..<c])"
    by (rule inner) simp
  then have inner_down:
    "concat (map (inner_chain_gate key addrQubits ancQubits) (rev [0..<c])) = map Gate ?down"
    unfolding concat_map_Gate [symmetric] by (rule arg_cong)
  have clear: "clear_loop prev key addrQubits ancQubits 0 circuit = Inr (c, circuit @ map Gate ?up)"
    for circuit :: "('p, 'q) instr list"
    using clear_loop_run [of 0 c prev key ancQubits addrQubits circuit] below eq c assms(2,3)
    by (simp add: inner_up inner_down)
  have rebuild: "rebuild_loop key addrQubits ancQubits c circuit = Inr (circuit @ map Gate ?down)"
    for circuit :: "('p, 'q) instr list"
    using rebuild_loop_run [of c ancQubits addrQubits key circuit] c assms(2,3)
    by (simp add: inner_up inner_down)
  have run: "transition W prev key selQubit addrQubits ancQubits circuit
      = Inr (circuit @ map Gate (?up @ [?cx] @ ?down))"
    for circuit :: "('p, 'q) instr list"
    using c assms(2,3)
    by (auto simp: transition_def clear flip_gate_def rebuild chain_ctl_def)
  have sem: "fold exec_gate (?up @ [?cx] @ ?down) (chain_bits f selQubit addrQubits ancQubits prev 0)
      = chain_bits f selQubit addrQubits ancQubits key 0" for f
  proof -
    from c have c': "c \<le> W" by simp
    have "fold exec_gate ?up (chain_bits f selQubit addrQubits ancQubits prev 0)
        = chain_bits f selQubit addrQubits ancQubits prev c"
      using fold_chain_gates_up [OF assms(1-3) _ c', of 0 prev f] by simp
    moreover have "exec_gate ?cx (chain_bits f selQubit addrQubits ancQubits prev c)
        = chain_bits f selQubit addrQubits ancQubits key c"
      using key_bit_differs [OF eq ne] key_bit_agrees [OF eq]
      by (intro flip_gate_switches [OF assms(1-3) c]) auto
    moreover have "fold exec_gate ?down (chain_bits f selQubit addrQubits ancQubits key c)
        = chain_bits f selQubit addrQubits ancQubits key 0"
      by (rule fold_chain_gates_down [OF assms(1-3) c'])
    ultimately show ?thesis by simp
  qed
  from run sem show ?thesis by blast
qed

lemma payloads_Nil: "payloads eff operators targets selQubit addrQubits ancQubits [] r = r"
  by (simp add: payloads_def)

lemma payloads_Cons:
  "payloads eff operators targets selQubit addrQubits ancQubits (k # ks) r
     = payloads eff operators targets selQubit addrQubits ancQubits ks
         (if chain_val (bits r) selQubit addrQubits ancQubits k 0
          then fire eff (operators ! k) targets r else r)"
  by (simp add: payloads_def)

lemma payloads_snoc:
  "payloads eff operators targets selQubit addrQubits ancQubits (ks @ [k]) r
     = (let r' = payloads eff operators targets selQubit addrQubits ancQubits ks r
        in if chain_val (bits r') selQubit addrQubits ancQubits k 0
           then fire eff (operators ! k) targets r' else r')"
  by (simp add: payloads_def Let_def)

lemma key_loop_run:
  assumes "distinct (selQubit # addrQubits @ ancQubits)" and "length ancQubits = W"
    and "length addrQubits = W" and "0 < W"
    and "set targets \<inter> set (selQubit # addrQubits @ ancQubits) = {}"
    and "sorted_wrt (<) (prev # ks)"
    and "\<forall>k \<in> set ks. k < 2 ^ W \<and> k < length operators"
  shows "\<exists>g. for_each ks (key_body W selQubit addrQubits ancQubits targets operators)
               (Some prev, circuit :: ('p, 'q) instr list)
             = Inr (Some (last (prev # ks)), circuit @ g)
          \<and> (\<forall>r. exec eff g (chained selQubit addrQubits ancQubits prev 0 r)
                 = chained selQubit addrQubits ancQubits (last (prev # ks)) 0
                     (payloads eff operators targets selQubit addrQubits ancQubits ks r))"
  using assms(6,7)
proof (induction ks arbitrary: prev circuit)
  case Nil
  show ?case by (simp add: exec_Nil payloads_Nil)
next
  case (Cons k ks)
  from Cons.prems have k: "prev < k" "k < 2 ^ W" "k < length operators" by simp_all
  from transition_run [OF assms(1-3) k(1,2)] obtain g1 where
    g1: "\<And>circuit :: ('p, 'q) instr list.
           transition W prev k selQubit addrQubits ancQubits circuit = Inr (circuit @ map Gate g1)"
    and s1: "\<And>f. fold exec_gate g1 (chain_bits f selQubit addrQubits ancQubits prev 0)
                 = chain_bits f selQubit addrQubits ancQubits k 0"
    by blast
  let ?ap = "Apply (operators ! k) (ancQubits ! 0) targets"
  let ?c1 = "circuit @ map Gate g1 @ [?ap]"
  from Cons.prems have "sorted_wrt (<) (k # ks)" "\<forall>k \<in> set ks. k < 2 ^ W \<and> k < length operators"
    by simp_all
  from Cons.IH [OF this, of ?c1] obtain g2 where
    g2: "for_each ks (key_body W selQubit addrQubits ancQubits targets operators) (Some k, ?c1)
           = Inr (Some (last (k # ks)), ?c1 @ g2)"
    and s2: "\<And>r. exec eff g2 (chained selQubit addrQubits ancQubits k 0 r)
              = chained selQubit addrQubits ancQubits (last (k # ks)) 0
                  (payloads eff operators targets selQubit addrQubits ancQubits ks r)"
    by blast
  have body: "key_body W selQubit addrQubits ancQubits targets operators k (Some prev, circuit)
      = Inr (Some k, ?c1)"
    using k assms(2,4) by (simp add: key_body_def g1)
  have run: "for_each (k # ks) (key_body W selQubit addrQubits ancQubits targets operators)
      (Some prev, circuit) = Inr (Some (last (prev # k # ks)), circuit @ (map Gate g1 @ [?ap] @ g2))"
    using g2 by (simp add: body)
  have sem: "exec eff (map Gate g1 @ [?ap] @ g2) (chained selQubit addrQubits ancQubits prev 0 r)
      = chained selQubit addrQubits ancQubits (last (prev # k # ks)) 0
          (payloads eff operators targets selQubit addrQubits ancQubits (k # ks) r)" for r
  proof -
    let ?R = "chained selQubit addrQubits ancQubits prev 0 r"
    let ?r1 = "if chain_val (bits r) selQubit addrQubits ancQubits k 0
               then fire eff (operators ! k) targets r else r"
    have "exec eff (map Gate g1 @ [?ap] @ g2) ?R
        = exec eff g2 (exec eff [?ap] (exec eff (map Gate g1) ?R))"
      by (simp only: exec_append)
    also have "exec eff (map Gate g1) ?R = chained selQubit addrQubits ancQubits k 0 r"
      by (rule exec_gates_chained [OF s1])
    also have "exec eff [?ap] (chained selQubit addrQubits ancQubits k 0 r)
        = chained selQubit addrQubits ancQubits k 0 ?r1"
      by (rule exec_Apply_chained [OF assms(1-5)])
    also have "exec eff g2 (chained selQubit addrQubits ancQubits k 0 ?r1)
        = chained selQubit addrQubits ancQubits (last (k # ks)) 0
            (payloads eff operators targets selQubit addrQubits ancQubits ks ?r1)"
      by (rule s2)
    finally show ?thesis by (simp only: payloads_Cons last.simps list.simps if_False)
  qed
  from run sem show ?case by blast
qed

lemma chained_top: "chained selQubit addrQubits ancQubits k (length ancQubits) r = r"
  by (simp add: chained_def chain_bits_top)

text \<open>
  The circuit of \<^verbatim>\<open>qrom\<close> for a strictly increasing list of keys below \<open>2 ^ W\<close>: on every
  register it fires the payloads of the matching keys and changes nothing else.
\<close>

lemma qrom_run:
  assumes "distinct (sel_q # ctl_q @ anc_q)" and "length anc_q = W" and "length ctl_q = W"
    and "ks \<noteq> [] \<longrightarrow> 0 < W"
    and "set tgt_q \<inter> set (sel_q # ctl_q @ anc_q) = {}"
    and "sorted_wrt (<) ks"
    and "\<forall>k \<in> set ks. k < 2 ^ W \<and> k < length operators"
  shows "\<exists>circuit :: ('p, 'q) instr list.
            qrom ctl_q anc_q sel_q tgt_q W ks operators = Inr circuit
          \<and> (\<forall>r. exec eff circuit r
                 = payloads eff operators tgt_q sel_q (rev ctl_q) (rev anc_q) ks r)"
proof (cases ks)
  case Nil
  then show ?thesis by (simp add: qrom_def exec_Nil payloads_Nil)
next
  case (Cons k ks')
  let ?a = "rev ctl_q" and ?b = "rev anc_q"
  from assms(1) have d: "distinct (sel_q # ?a @ ?b)" by auto
  from assms(2,3) have len: "length ?b = W" "length ?a = W" by simp_all
  from assms(4) Cons have W: "0 < W" by simp
  from assms(5) have t: "set tgt_q \<inter> set (sel_q # ?a @ ?b) = {}" by auto
  from assms(7) Cons have k: "k < 2 ^ W" "k < length operators" by simp_all
  let ?build = "concat (map (chain_gate_at W k sel_q ?a ?b) (rev [0..<W]))"
  let ?ap = "Apply (operators ! k) (?b ! 0) tgt_q"
  let ?c1 = "map Gate ?build @ [?ap]"
  have build: "for_each (rev [0..<W]) (chain_gate W k sel_q ?a ?b) ([] :: ('p, 'q) instr list)
      = Inr (map Gate ?build)"
    using for_each_chain_gate [OF len, of "rev [0..<W]" k sel_q "[]"]
    by (simp add: concat_map_Gate lessThan_atLeast0)
  have body: "key_body W sel_q ?a ?b tgt_q operators k (None, []) = Inr (Some k, ?c1)"
    using k W len by (simp add: key_body_def build)
  from assms(6,7) Cons have "sorted_wrt (<) (k # ks')"
    "\<forall>k \<in> set ks'. k < 2 ^ W \<and> k < length operators" by simp_all
  from key_loop_run [OF d len W t this, of ?c1 eff] obtain g where
    g: "for_each ks' (key_body W sel_q ?a ?b tgt_q operators) (Some k, ?c1)
           = Inr (Some (last (k # ks')), ?c1 @ g)"
    and s: "\<And>r. exec eff g (chained sel_q ?a ?b k 0 r)
              = chained sel_q ?a ?b (last (k # ks')) 0
                  (payloads eff operators tgt_q sel_q ?a ?b ks' r)"
    by blast
  let ?l = "last (k # ks')"
  let ?clear = "concat (map (chain_gate_at W ?l sel_q ?a ?b) [0..<W])"
  have clear: "for_each [0..<W] (chain_gate W ?l sel_q ?a ?b) circuit
      = Inr (circuit @ map Gate ?clear)" for circuit :: "('p, 'q) instr list"
    using for_each_chain_gate [OF len, of "[0..<W]" ?l sel_q circuit]
    by (simp add: concat_map_Gate lessThan_atLeast0)
  have "for_each ks (key_body W sel_q ?a ?b tgt_q operators) (None, [])
      = for_each ks' (key_body W sel_q ?a ?b tgt_q operators) (Some k, ?c1)"
    unfolding Cons by (simp only: for_each.simps body sum.case)
  then have loop: "for_each ks (key_body W sel_q ?a ?b tgt_q operators) (None, [])
      = Inr (Some ?l, ?c1 @ g)"
    by (simp only: g)
  have run: "qrom ctl_q anc_q sel_q tgt_q W ks operators = Inr (?c1 @ g @ map Gate ?clear)"
    by (simp only: qrom_def Let_def loop sum.case prod.case option.case clear append_assoc)
  have up: "fold exec_gate ?clear (chain_bits f sel_q ?a ?b ?l 0)
      = chain_bits f sel_q ?a ?b ?l (length ?b)" for f
    using fold_chain_gates_up [OF d len, of 0 W ?l f] len by simp
  have down: "fold exec_gate ?build (chain_bits f sel_q ?a ?b k (length ?b))
      = chain_bits f sel_q ?a ?b k 0" for f
    using fold_chain_gates_down [OF d len, of W k f] len by simp
  have sem: "exec eff (?c1 @ g @ map Gate ?clear) r
      = payloads eff operators tgt_q sel_q ?a ?b ks r" for r
  proof -
    let ?r1 = "if chain_val (bits r) sel_q ?a ?b k 0
               then fire eff (operators ! k) tgt_q r else r"
    have "exec eff (?c1 @ g @ map Gate ?clear) r
        = exec eff (map Gate ?clear) (exec eff g (exec eff [?ap] (exec eff (map Gate ?build) r)))"
      by (simp only: exec_append append_assoc)
    also have "exec eff (map Gate ?build) r = chained sel_q ?a ?b k 0 r"
      using exec_gates_chained [OF down, of eff r] by (simp only: chained_top)
    also have "exec eff [?ap] (chained sel_q ?a ?b k 0 r) = chained sel_q ?a ?b k 0 ?r1"
      by (rule exec_Apply_chained [OF d len W t])
    also have "exec eff g (chained sel_q ?a ?b k 0 ?r1)
        = chained sel_q ?a ?b ?l 0 (payloads eff operators tgt_q sel_q ?a ?b ks' ?r1)"
      by (rule s)
    also have "exec eff (map Gate ?clear) \<dots>
        = chained sel_q ?a ?b ?l (length ?b) (payloads eff operators tgt_q sel_q ?a ?b ks' ?r1)"
      by (rule exec_gates_chained [OF up])
    finally show ?thesis
      using Cons by (simp only: chained_top payloads_Cons)
  qed
  from run sem show ?thesis by blast
qed

section \<open>Registers whose ancillas start at 0\<close>

lemma chain_val_zero_anc:
  assumes "\<forall>q \<in> set ancQubits. \<not> f q" and "length addrQubits = length ancQubits"
  shows "chain_val f selQubit addrQubits ancQubits k i
    = (f selQubit \<and> (\<forall>j. i \<le> j \<and> j < length ancQubits \<longrightarrow> f (addrQubits ! j) = key_bit k j))"
proof (induction "length ancQubits - i" arbitrary: i)
  case 0
  then show ?case
    by (auto simp: chain_val.simps [of f selQubit addrQubits ancQubits k i])
next
  case (Suc d)
  then have i: "i < length ancQubits" by simp
  with assms have z: "\<not> f (ancQubits ! i)" by simp
  from Suc have IH: "chain_val f selQubit addrQubits ancQubits k (Suc i)
    = (f selQubit \<and> (\<forall>j. Suc i \<le> j \<and> j < length ancQubits \<longrightarrow> f (addrQubits ! j) = key_bit k j))"
    by (intro Suc.hyps(1)) simp
  have split: "(\<forall>j. i \<le> j \<and> j < length ancQubits \<longrightarrow> P j)
      \<longleftrightarrow> P i \<and> (\<forall>j. Suc i \<le> j \<and> j < length ancQubits \<longrightarrow> P j)" for P
    using i by (auto simp: Suc_le_eq dest: le_neq_implies_less)
  have "chain_val f selQubit addrQubits ancQubits k i
      = (f (ancQubits ! i) \<noteq> (chain_val f selQubit addrQubits ancQubits k (Suc i)
           \<and> f (addrQubits ! i) = key_bit k i))"
    using i by (simp add: chain_val.simps [of f selQubit addrQubits ancQubits k i])
  with z IH split [of "\<lambda>j. f (addrQubits ! j) = key_bit k j"] show ?case
    by auto
qed

lemma msb_first_bits_decode: "msb_first_bits (length bs) (decode bs) = bs"
proof (induction bs rule: rev_induct)
  case Nil
  show ?case by (simp add: msb_first_bits_def)
next
  case (snoc b bs)
  then show ?case
    by (simp add: msb_first_bits_Suc decode_snoc)
qed

lemma decode_eq_iff_bits:
  assumes "length bs = W" and "k < 2 ^ W"
  shows "decode bs = k \<longleftrightarrow> bs = msb_first_bits W k"
  using assms msb_first_bits_decode [of bs] decode_msb_first_bits [of W k] by auto

lemma address_eq_iff_match:
  assumes "length ctl_q = W" and "k < 2 ^ W"
  shows "address r ctl_q = k \<longleftrightarrow> (\<forall>j < W. bits r (rev ctl_q ! j) = key_bit k j)"
proof -
  have "address r ctl_q = k \<longleftrightarrow> map (bits r) ctl_q = msb_first_bits W k"
    unfolding address_def using assms by (intro decode_eq_iff_bits) simp_all
  also have "\<dots> \<longleftrightarrow> (\<forall>m < W. bits r (ctl_q ! m) = key_bit k (W - 1 - m))"
    using assms by (simp add: list_eq_iff_nth_eq nth_msb_first_bits)
  also have "\<dots> \<longleftrightarrow> (\<forall>j < W. bits r (rev ctl_q ! j) = key_bit k j)"
  proof
    assume a: "\<forall>m < W. bits r (ctl_q ! m) = key_bit k (W - 1 - m)"
    show "\<forall>j < W. bits r (rev ctl_q ! j) = key_bit k j"
    proof (intro allI impI)
      fix j assume j: "j < W"
      with a have "bits r (ctl_q ! (W - Suc j)) = key_bit k (W - 1 - (W - Suc j))" by simp
      with j assms show "bits r (rev ctl_q ! j) = key_bit k j"
        by (simp add: rev_nth)
    qed
  next
    assume a: "\<forall>j < W. bits r (rev ctl_q ! j) = key_bit k j"
    show "\<forall>m < W. bits r (ctl_q ! m) = key_bit k (W - 1 - m)"
    proof (intro allI impI)
      fix m assume m: "m < W"
      with a have "bits r (rev ctl_q ! (W - 1 - m)) = key_bit k (W - 1 - m)" by simp
      with m assms show "bits r (ctl_q ! m) = key_bit k (W - 1 - m)"
        by (simp add: rev_nth)
    qed
  qed
  finally show ?thesis .
qed

lemma bits_fire_other: "q \<notin> set targets \<Longrightarrow> bits (fire eff p targets r) q = bits r q"
  by (simp add: fire_def write_bits_other)

lemma fired_fire: "fired (fire eff p targets r) = fired r @ [p]"
  by (simp add: fire_def)

text \<open>
  On a register whose ancillas are 0, the bottom of the chain for a key below \<open>2 ^ W\<close> is
  1 exactly when the enable bit is 1 and the address is the key.
\<close>

lemma hit_iff_enabled_address:
  assumes "length anc_q = W" and "length ctl_q = W" and "k < 2 ^ W"
    and "\<forall>q \<in> set anc_q. \<not> bits r q"
  shows "chain_val (bits r) sel_q (rev ctl_q) (rev anc_q) k 0
    \<longleftrightarrow> bits r sel_q \<and> address r ctl_q = k"
proof -
  from assms have "\<forall>q \<in> set (rev anc_q). \<not> bits r q" "length (rev ctl_q) = length (rev anc_q)"
    by simp_all
  from chain_val_zero_anc [OF this, of sel_q k 0] assms show ?thesis
    by (simp add: address_eq_iff_match [OF assms(2,3)])
qed

lemma payloads_zero_anc:
  assumes "length anc_q = W" and "length ctl_q = W"
    and "set tgt_q \<inter> set (sel_q # ctl_q @ anc_q) = {}"
    and "\<forall>q \<in> set anc_q. \<not> bits r q"
    and "distinct ks" and "\<forall>k \<in> set ks. k < 2 ^ W"
  shows "payloads eff operators tgt_q sel_q (rev ctl_q) (rev anc_q) ks r
    = (if bits r sel_q \<and> address r ctl_q \<in> set ks
       then fire eff (operators ! address r ctl_q) tgt_q r else r)"
  using assms(5,6)
proof (induction ks rule: rev_induct)
  case Nil
  show ?case by (simp add: payloads_Nil)
next
  case (snoc k ks)
  let ?r' = "payloads eff operators tgt_q sel_q (rev ctl_q) (rev anc_q) ks r"
  from snoc have IH: "?r' = (if bits r sel_q \<and> address r ctl_q \<in> set ks
       then fire eff (operators ! address r ctl_q) tgt_q r else r)"
    by simp
  from snoc.prems have k: "k < 2 ^ W" "k \<notin> set ks" by simp_all
  have same: "bits ?r' q = bits r q" if "q \<notin> set tgt_q" for q
    using that by (simp add: IH bits_fire_other)
  from assms(3) have "sel_q \<notin> set tgt_q" "\<forall>q \<in> set ctl_q. q \<notin> set tgt_q"
    "\<forall>q \<in> set anc_q. q \<notin> set tgt_q" by auto
  then have sel: "bits ?r' sel_q = bits r sel_q"
    and ctl: "map (bits ?r') ctl_q = map (bits r) ctl_q"
    and anc: "\<forall>q \<in> set anc_q. \<not> bits ?r' q"
    using same assms(4) by (auto intro!: map_cong)
  have "chain_val (bits ?r') sel_q (rev ctl_q) (rev anc_q) k 0
      \<longleftrightarrow> bits r sel_q \<and> address r ctl_q = k"
    using hit_iff_enabled_address [OF assms(1,2) k(1) anc] sel ctl
    by (simp add: address_def)
  then show ?case
    using k(2) by (auto simp: payloads_snoc Let_def IH)
qed

section \<open>The walk on a simulated register\<close>

lemma key_values_upt: "map (\<lambda>ii. ii + pos1) [0..<pos2 - pos1] = [pos1..<pos2]"
  by (cases "pos1 \<le> pos2") (simp_all add: map_add_upt)

lemma applyAndWalk_run:
  assumes "distinct (sel_q # ctl_q @ anc_q)" and "length anc_q = length ctl_q"
    and "set tgt_q \<inter> set (sel_q # ctl_q @ anc_q) = {}"
    and "pos2 \<le> 2 ^ length ctl_q" and "pos2 \<le> length operators"
    and "pos1 < pos2 \<longrightarrow> 0 < length ctl_q"
  shows "\<exists>circuit :: ('p, 'q) instr list.
            applyAndWalk operators pos1 pos2 ctl_q sel_q anc_q tgt_q = Inr circuit
          \<and> (\<forall>r. exec eff circuit r
                 = payloads eff operators tgt_q sel_q (rev ctl_q) (rev anc_q) [pos1..<pos2] r)"
proof -
  have "\<exists>circuit :: ('p, 'q) instr list.
            qrom ctl_q anc_q sel_q tgt_q (length ctl_q) [pos1..<pos2] operators = Inr circuit
          \<and> (\<forall>r. exec eff circuit r
                 = payloads eff operators tgt_q sel_q (rev ctl_q) (rev anc_q) [pos1..<pos2] r)"
    using assms by (intro qrom_run) auto
  then show ?thesis
    by (simp add: applyAndWalk_def key_values_upt)
qed

lemma applyAndWalk_no_address_bits:
  "applyAndWalk operators 0 (Suc 0) [] sel_q [] tgt_q = Inl IndexError"
  by (simp add: applyAndWalk_def qrom_def key_body_def)

text \<open>
  C1: on a register whose ancillas are 0, if the address is not one of the keys
  \<open>pos1, \<dots>, pos2 - 1\<close> or the enable bit is 0, then every circuit that \<^verbatim>\<open>applyAndWalk\<close>
  returns leaves the register as it was: all ancillas are 0 again and no payload has
  fired. A circuit is returned whenever there is an address bit, and also without one
  when the address is not a key.
\<close>

theorem walk_off_key_changes_nothing:
  assumes "distinct (sel_q # ctl_q @ anc_q)" and "length anc_q = length ctl_q"
    and "set tgt_q \<inter> set (sel_q # ctl_q @ anc_q) = {}"
    and "pos2 \<le> 2 ^ length ctl_q" and "pos2 \<le> length operators"
    and "\<forall>q \<in> set anc_q. \<not> bits r q"
    and "address r ctl_q \<notin> {pos1..<pos2} \<or> \<not> bits r sel_q"
  shows "(\<forall>circuit. applyAndWalk operators pos1 pos2 ctl_q sel_q anc_q tgt_q = Inr circuit \<longrightarrow>
            (\<forall>q \<in> set anc_q. \<not> bits (exec eff circuit r) q)
          \<and> fired (exec eff circuit r) = fired r
          \<and> exec eff circuit r = r)
       \<and> (0 < length ctl_q \<or> address r ctl_q \<notin> {pos1..<pos2} \<longrightarrow>
            (\<exists>circuit. applyAndWalk operators pos1 pos2 ctl_q sel_q anc_q tgt_q = Inr circuit))"
proof (cases "pos1 < pos2 \<longrightarrow> 0 < length ctl_q")
  case True
  from applyAndWalk_run [OF assms(1-5) True, of eff] obtain circuit where
    run: "applyAndWalk operators pos1 pos2 ctl_q sel_q anc_q tgt_q = Inr circuit"
    and sem: "\<And>r. exec eff circuit r
       = payloads eff operators tgt_q sel_q (rev ctl_q) (rev anc_q) [pos1..<pos2] r"
    by blast
  have "\<forall>k \<in> set [pos1..<pos2]. k < 2 ^ length ctl_q"
    using assms(4) by auto
  then have "payloads eff operators tgt_q sel_q (rev ctl_q) (rev anc_q) [pos1..<pos2] r = r"
    using assms(7)
    by (auto simp: payloads_zero_anc [OF assms(2) refl assms(3,6)])
  with run sem assms(6) show ?thesis by simp
next
  case False
  then have "length ctl_q = 0" "pos1 < pos2" by simp_all
  with assms(2,4) have "ctl_q = []" "anc_q = []" "pos1 = 0" "pos2 = Suc 0" by auto
  then show ?thesis
    by (simp add: applyAndWalk_no_address_bits address_def decode_def)
qed

theorem walk_off_key_changes_nothing_witness:
  "distinct ((0::nat) # [1, 2] @ [3, 4]) \<and> length [3, 4 :: nat] = length [1, 2 :: nat]
   \<and> set [5 :: nat] \<inter> set (0 # [1, 2] @ [3, 4]) = {}
   \<and> (2::nat) \<le> 2 ^ length [1, 2 :: nat] \<and> 2 \<le> length [100, 101, 102, 103 :: nat]
   \<and> \<not> bits \<lparr>bits = (\<lambda>q :: nat. q = 0 \<or> q = 1), fired = ([] :: nat list)\<rparr> 3
   \<and> \<not> bits \<lparr>bits = (\<lambda>q :: nat. q = 0 \<or> q = 1), fired = ([] :: nat list)\<rparr> 4
   \<and> address \<lparr>bits = (\<lambda>q :: nat. q = 0 \<or> q = 1), fired = ([] :: nat list)\<rparr> [1, 2] = 2
   \<and> (2::nat) \<notin> {0..<2}
   \<and> (\<exists>circuit. applyAndWalk [100, 101, 102, 103 :: nat] 0 2 [1, 2 :: nat] 0 [3, 4] [5] = Inr circuit
        \<and> fired (exec (\<lambda>p bs. map Not bs) circuit
             \<lparr>bits = (\<lambda>q. q = 0 \<or> q = 1), fired = []\<rparr>) = []
        \<and> exec (\<lambda>p bs. map Not bs) circuit \<lparr>bits = (\<lambda>q. q = 0 \<or> q = 1), fired = []\<rparr>
            = \<lparr>bits = (\<lambda>q. q = 0 \<or> q = 1), fired = []\<rparr>)"
proof -
  show ?thesis
    using walk_off_key_changes_nothing [of "0 :: nat" "[1, 2]" "[3, 4]" "[5]" 2
        "[100, 101, 102, 103 :: nat]"
        "\<lparr>bits = (\<lambda>q. q = 0 \<or> q = 1), fired = []\<rparr>" 0 "\<lambda>p bs. map Not bs"]
    by (simp add: address_def decode_def) blast
qed

text \<open>
  C2 as stated fails when there is no address bit: for the key list \<open>[0]\<close>, address 0
  and enable bit 1, \<^verbatim>\<open>applyAndWalk\<close> raises on an empty ancilla register, and with a
  spare ancilla it returns a circuit whose payload never fires.
\<close>

theorem walk_no_address_bits_counterexample:
  "applyAndWalk [7 :: nat] 0 1 ([] :: nat list) 0 [] [1] = Inl IndexError
   \<and> address \<lparr>bits = (\<lambda>q :: nat. q = 0), fired = ([] :: nat list)\<rparr> [] = 0
   \<and> applyAndWalk [7 :: nat] 0 1 ([] :: nat list) 0 [2] [1] = Inr [Apply 7 2 [1]]
   \<and> fired (exec (\<lambda>p bs. map Not bs) [Apply 7 2 [1]]
        \<lparr>bits = (\<lambda>q :: nat. q = 0), fired = ([] :: nat list)\<rparr>) = []"
  by (simp add: applyAndWalk_def qrom_def key_body_def address_def decode_def exec_def)

text \<open>
  C2 amended: with at least one address bit, on a register whose ancillas are 0, whose
  enable bit is 1 and whose address is one of the keys \<open>pos1, \<dots>, pos2 - 1\<close>, the circuit
  of \<^verbatim>\<open>applyAndWalk\<close> fires exactly one payload, the operator of the address, and leaves
  all ancillas at 0: it has the effect of that payload alone.
\<close>

theorem walk_on_key_fires_its_payload:
  assumes "distinct (sel_q # ctl_q @ anc_q)" and "length anc_q = length ctl_q"
    and "set tgt_q \<inter> set (sel_q # ctl_q @ anc_q) = {}"
    and "pos2 \<le> 2 ^ length ctl_q" and "pos2 \<le> length operators"
    and "0 < length ctl_q"
    and "\<forall>q \<in> set anc_q. \<not> bits r q"
    and "bits r sel_q" and "address r ctl_q \<in> {pos1..<pos2}"
  shows "\<exists>circuit. applyAndWalk operators pos1 pos2 ctl_q sel_q anc_q tgt_q = Inr circuit
          \<and> fired (exec eff circuit r) = fired r @ [operators ! address r ctl_q]
          \<and> (\<forall>q \<in> set anc_q. \<not> bits (exec eff circuit r) q)
          \<and> exec eff circuit r = fire eff (operators ! address r ctl_q) tgt_q r"
proof -
  from assms(6) have "pos1 < pos2 \<longrightarrow> 0 < length ctl_q" by simp
  from applyAndWalk_run [OF assms(1-5) this, of eff] obtain circuit where
    run: "applyAndWalk operators pos1 pos2 ctl_q sel_q anc_q tgt_q = Inr circuit"
    and sem: "\<And>r. exec eff circuit r
       = payloads eff operators tgt_q sel_q (rev ctl_q) (rev anc_q) [pos1..<pos2] r"
    by blast
  have "\<forall>k \<in> set [pos1..<pos2]. k < 2 ^ length ctl_q"
    using assms(4) by auto
  then have eq: "exec eff circuit r = fire eff (operators ! address r ctl_q) tgt_q r"
    using assms(8,9)
    by (simp add: sem payloads_zero_anc [OF assms(2) refl assms(3,7)])
  from assms(3) have "\<forall>q \<in> set anc_q. q \<notin> set tgt_q" by auto
  with assms(7) have "\<forall>q \<in> set anc_q. \<not> bits (exec eff circuit r) q"
    by (simp add: eq bits_fire_other)
  with run eq show ?thesis
    by (auto simp: fired_fire)
qed

theorem walk_on_key_fires_its_payload_witness:
  "distinct ((0::nat) # [1, 2] @ [3, 4]) \<and> length [3, 4 :: nat] = length [1, 2 :: nat]
   \<and> set [5 :: nat] \<inter> set (0 # [1, 2] @ [3, 4]) = {}
   \<and> (4::nat) \<le> 2 ^ length [1, 2 :: nat] \<and> 4 \<le> length [100, 101, 102, 103 :: nat]
   \<and> 0 < length [1, 2 :: nat]
   \<and> \<not> bits \<lparr>bits = (\<lambda>q :: nat. q = 0 \<or> q = 1), fired = ([] :: nat list)\<rparr> 3
   \<and> \<not> bits \<lparr>bits = (\<lambda>q :: nat. q = 0 \<or> q = 1), fired = ([] :: nat list)\<rparr> 4
   \<and> bits \<lparr>bits = (\<lambda>q :: nat. q = 0 \<or> q = 1), fired = ([] :: nat list)\<rparr> 0
   \<and> address \<lparr>bits = (\<lambda>q :: nat. q = 0 \<or> q = 1), fired = ([] :: nat list)\<rparr> [1, 2] = 2
   \<and> (2::nat) \<in> {0..<4}
   \<and> (\<exists>circuit. applyAndWalk [100, 101, 102, 103 :: nat] 0 4 [1, 2 :: nat] 0 [3, 4] [5] = Inr circuit
        \<and> fired (exec (\<lambda>p bs. map Not bs) circuit
             \<lparr>bits = (\<lambda>q. q = 0 \<or> q = 1), fired = []\<rparr>) = [102]
        \<and> (\<forall>q \<in> set [3, 4]. \<not> bits (exec (\<lambda>p bs. map Not bs) circuit
             \<lparr>bits = (\<lambda>q. q = 0 \<or> q = 1), fired = []\<rparr>) q))"
proof -
  show ?thesis
    using walk_on_key_fires_its_payload [of "0 :: nat" "[1, 2]" "[3, 4]" "[5]" 4
        "[100, 101, 102, 103 :: nat]"
        "\<lparr>bits = (\<lambda>q. q = 0 \<or> q = 1), fired = []\<rparr>" 0 "\<lambda>p bs. map Not bs"]
    by (simp add: address_def decode_def) blast
qed

section \<open>The tree walk on a simulated register\<close>

lemma exec_inverse_gate: "gate_ok g \<Longrightarrow> exec_gate (inverse_gate g) (exec_gate g f) = f"
  by (cases g) (auto simp: fun_eq_iff)

lemma fold_inverse:
  "\<forall>g \<in> set w. gate_ok g \<Longrightarrow> fold exec_gate (inverse w) (fold exec_gate w f) = f"
proof (induction w arbitrary: f)
  case Nil
  show ?case by (simp add: inverse_def)
next
  case (Cons g w)
  then have "fold exec_gate (inverse w) (fold exec_gate w (exec_gate g f)) = exec_gate g f"
    by simp
  with Cons.prems show ?case
    by (simp add: inverse_def exec_inverse_gate)
qed

lemma gate_ok_toffoli: "c0 \<noteq> t \<Longrightarrow> c1 \<noteq> t \<Longrightarrow> \<forall>g \<in> set (toffoli b0 b1 c0 c1 t). gate_ok g"
  by (auto simp: toffoli_def)

lemma walkDown_helper_run:
  assumes "length qbt = length bt" and "length anc = Suc (length bt)"
  shows "walkDown_helper_unbounded myc bt qbt anc
    = Inr (myc @ concat (map (\<lambda>j. toffoli (bt ! j) True (qbt ! j) (anc ! j) (anc ! Suc j))
             [0..<length bt]))"
  using assms
proof (induction bt arbitrary: myc qbt anc)
  case Nil
  then show ?case by simp
next
  case (Cons b bt)
  then obtain q qbt' where q: "qbt = q # qbt'" by (cases qbt) auto
  from Cons.prems obtain a0 a1 anc' where a: "anc = a0 # a1 # anc'"
    by (cases anc; cases "tl anc") auto
  from Cons.prems q a have len: "length qbt' = length bt" "length (a1 # anc') = Suc (length bt)"
    by simp_all
  have shift: "[0..<length (b # bt)] = 0 # map Suc [0..<length bt]"
    by (simp add: upt_conv_Cons map_Suc_upt del: upt_Suc)
  show ?case
    unfolding q a shift
    by (simp add: Cons.IH [OF len] comp_def del: upt_Suc)
qed

lemma rev_upt_map: "rev [0..<n] = map (\<lambda>j. n - Suc j) [0..<n]"
  by (rule nth_equalityI) (simp_all add: rev_nth)

lemma down_gate_sem:
  assumes "distinct (selQubit # addrQubits @ ancQubits)" and "length ancQubits = W"
    and "length addrQubits = W" and "Suc i < W"
  shows "fold exec_gate (down_gate_at k addrQubits ancQubits i) g
       = fold exec_gate (chain_gate_at W k selQubit addrQubits ancQubits i) g"
    and "\<forall>x \<in> set (down_gate_at k addrQubits ancQubits i). gate_ok x"
proof -
  from assms(4) have i: "i < W" by simp
  note neq = chain_ctl_neq [OF assms(1-3) i]
  from assms(4) have ctl: "chain_ctl W selQubit ancQubits i = ancQubits ! Suc i"
    by (simp add: chain_ctl_def)
  show "fold exec_gate (down_gate_at k addrQubits ancQubits i) g
       = fold exec_gate (chain_gate_at W k selQubit addrQubits ancQubits i) g"
    using neq unfolding down_gate_at_def chain_gate_at_def ctl
    by (subst exec_toffoli, simp, simp, metis, subst exec_toffoli) (auto simp: fun_eq_iff)
  show "\<forall>x \<in> set (down_gate_at k addrQubits ancQubits i). gate_ok x"
    using neq unfolding down_gate_at_def ctl
    by (intro gate_ok_toffoli) auto
qed

lemma chain_gate_ok:
  assumes "distinct (selQubit # addrQubits @ ancQubits)" and "length ancQubits = W"
    and "length addrQubits = W" and "i < W"
  shows "\<forall>x \<in> set (chain_gate_at W k selQubit addrQubits ancQubits i). gate_ok x"
  using chain_ctl_neq [OF assms] unfolding chain_gate_at_def
  by (intro gate_ok_toffoli) auto

lemma fold_down_gates:
  assumes "distinct (selQubit # addrQubits @ ancQubits)" and "length ancQubits = W"
    and "length addrQubits = W" and "n < W"
  shows "fold exec_gate (concat (map (down_gate_at k addrQubits ancQubits) (rev [0..<n])))
           (chain_bits f selQubit addrQubits ancQubits k n)
         = chain_bits f selQubit addrQubits ancQubits k 0"
  using assms(4)
proof (induction n)
  case 0
  then show ?case by simp
next
  case (Suc n)
  then have n: "n < W" "Suc n < W" by simp_all
  with Suc down_gate_sem(1) [OF assms(1-3) n(2)]
    chain_gate_builds [OF assms(1-3) n(1), of k f] show ?case
    by simp
qed

text \<open>
  \<open>walkDown_unbounded\<close> for the path of key \<open>k\<close>: the circuit it returns builds the chain of \<open>k\<close>.
\<close>

lemma walkDown_run:
  assumes "distinct (sel_q # ctl_q @ anc_q)" and "length anc_q = W" and "length ctl_q = W"
    and "0 < W"
  shows "\<exists>w. walkDown_unbounded ([True] @ msb_first_bits W k) ([sel_q] @ ctl_q) anc_q = Inr w
      \<and> (\<forall>x \<in> set w. gate_ok x)
      \<and> (\<forall>f. fold exec_gate w (chain_bits f sel_q (rev ctl_q) (rev anc_q) k W)
              = chain_bits f sel_q (rev ctl_q) (rev anc_q) k 0)"
proof -
  let ?a = "rev ctl_q" and ?b = "rev anc_q"
  let ?bs = "msb_first_bits W k"
  from assms(1) have d: "distinct (sel_q # ?a @ ?b)" by auto
  from assms(2,3) have len: "length ?b = W" "length ?a = W" by simp_all
  from assms(4) have W1: "W - 1 < W" by simp
  let ?top = "chain_gate_at W k sel_q ?a ?b (W - 1)"
  let ?rest = "concat (map (down_gate_at k ?a ?b) (rev [0..<W - 1]))"
  have top: "toffoli (([True] @ ?bs) ! 0) (([True] @ ?bs) ! 1) (([sel_q] @ ctl_q) ! 0)
      (([sel_q] @ ctl_q) ! 1) (anc_q ! 0) = ?top"
    using assms(2-4)
    by (simp add: chain_gate_at_def chain_ctl_def nth_msb_first_bits rev_nth)
  have gates: "map (\<lambda>j. toffoli (drop 1 ?bs ! j) True (drop 1 ctl_q ! j) (anc_q ! j) (anc_q ! Suc j))
        [0..<W - 1]
      = map (\<lambda>j. down_gate_at k ?a ?b (W - 1 - Suc j)) [0..<W - 1]"
    using assms(2,3)
    by (intro map_cong refl) (simp add: down_gate_at_def nth_msb_first_bits rev_nth Suc_diff_Suc)
  have rest: "concat (map (\<lambda>j. toffoli (drop 1 ?bs ! j) True (drop 1 ctl_q ! j)
               (anc_q ! j) (anc_q ! Suc j)) [0..<W - 1]) = ?rest"
    unfolding gates rev_upt_map [of "W - 1"] by (simp add: comp_def)
  have l: "length (drop 1 ?bs) = W - 1" by simp
  have "walkDown_helper_unbounded ?top (drop 1 ?bs) (drop 1 ctl_q) anc_q
      = Inr (?top @ concat (map (\<lambda>j. toffoli (drop 1 ?bs ! j) True (drop 1 ctl_q ! j)
               (anc_q ! j) (anc_q ! Suc j)) [0..<length (drop 1 ?bs)]))"
    using assms(2-4) by (intro walkDown_helper_run) simp_all
  also have "\<dots> = Inr (?top @ ?rest)"
    unfolding l rest ..
  finally have run: "walkDown_unbounded ([True] @ ?bs) ([sel_q] @ ctl_q) anc_q = Inr (?top @ ?rest)"
    using assms(2-4) top by (simp add: walkDown_unbounded_def)
  have ok: "\<forall>x \<in> set (?top @ ?rest). gate_ok x"
  proof -
    have "\<forall>x \<in> set (down_gate_at k ?a ?b i). gate_ok x" if "i < W - 1" for i
      using that by (intro down_gate_sem(2) [OF d len]) simp
    with chain_gate_ok [OF d len W1, of k] show ?thesis by auto
  qed
  have sem: "fold exec_gate (?top @ ?rest) (chain_bits f sel_q ?a ?b k W)
      = chain_bits f sel_q ?a ?b k 0" for f
    using chain_gate_builds [OF d len W1, of k f] fold_down_gates [OF d len W1, of k f] assms(4)
    by simp
  from run ok sem show ?thesis by blast
qed

lemma chain_bits_ctl:
  assumes "distinct (selQubit # addrQubits @ ancQubits)" and "length ancQubits = W"
    and "i < W" and "c \<le> Suc i"
  shows "chain_bits f selQubit addrQubits ancQubits k c (chain_ctl W selQubit ancQubits i)
    = chain_val f selQubit addrQubits ancQubits k (Suc i)"
proof (cases "Suc i = W")
  case True
  with assms show ?thesis
    by (simp add: chain_ctl_def chain_bits_other chain_val.simps [of _ _ _ _ _ W])
next
  case False
  with assms show ?thesis
    by (simp add: chain_ctl_def chain_bits_anc)
qed

text \<open>
  The three gates of \<open>stepRight_unbounded\<close> for distance 2: the key changes from \<open>\<dots>01\<close> to \<open>\<dots>10\<close> at
  the bits \<open>i + 1\<close> and \<open>i\<close>.
\<close>

lemma step_distance_two:
  assumes "distinct (selQubit # addrQubits @ ancQubits)" and "length ancQubits = W"
    and "length addrQubits = W" and "Suc i < W"
    and "key_bit K i" and "\<not> key_bit K (Suc i)"
    and "\<not> key_bit K' i" and "key_bit K' (Suc i)"
    and "\<forall>j > Suc i. key_bit K j = key_bit K' j"
  shows "fold exec_gate
           ([CX (ancQubits ! Suc i) (ancQubits ! i)]
            @ toffoli True False (chain_ctl W selQubit ancQubits (Suc i)) (addrQubits ! i) (ancQubits ! i)
            @ [CX (chain_ctl W selQubit ancQubits (Suc i)) (ancQubits ! Suc i)])
           (chain_bits f selQubit addrQubits ancQubits K i)
         = chain_bits f selQubit addrQubits ancQubits K' i"
proof -
  let ?S = "chain_bits f selQubit addrQubits ancQubits K i"
  let ?cv = "chain_val f selQubit addrQubits ancQubits"
  let ?q0 = "ancQubits ! i" and ?q1 = "ancQubits ! Suc i"
  let ?q2 = "chain_ctl W selQubit ancQubits (Suc i)" and ?x0 = "addrQubits ! i"
  from assms have d: "distinct ancQubits" and i: "i < W" by simp_all
  note n0 = chain_ctl_neq [OF assms(1-3) i]
  note n1 = chain_ctl_neq [OF assms(1-4)]
  from assms(2,4) d have q01: "?q0 \<noteq> ?q1" by (simp add: nth_eq_iff_index_eq)
  have q20: "?q2 \<noteq> ?q0"
    using assms(1,2,4) d by (auto simp: chain_ctl_def nth_eq_iff_index_eq dest: nth_mem)
  have "?x0 \<in> set addrQubits"
    using assms(3) i by simp
  moreover have "Suc (Suc i) \<noteq> W \<Longrightarrow> ancQubits ! Suc (Suc i) \<in> set ancQubits"
    using assms(2,4) by simp
  ultimately have q2x: "?q2 \<noteq> ?x0"
    using assms(1) by (auto simp: chain_ctl_def)
  have above: "?cv K j = ?cv K' j" if "Suc i < j" for j
    using assms(9) that by (intro chain_val_key_cong) auto
  have S0: "?S ?q0 = ?cv K i" and S1: "?S ?q1 = ?cv K (Suc i)"
    using assms(2,4) d by (simp_all add: chain_bits_anc)
  have S2: "?S ?q2 = ?cv K (Suc (Suc i))"
    using assms(4) by (intro chain_bits_ctl [OF assms(1,2)]) simp_all
  have Sx: "?S ?x0 = f ?x0"
    using n0(4) by (simp add: chain_bits_other)
  have u0: "?cv k i = (f ?q0 \<noteq> (?cv k (Suc i) \<and> f ?x0 = key_bit k i))" for k
    using assms(2) i by (simp add: chain_val.simps [of f selQubit addrQubits ancQubits k i])
  have u1: "?cv k (Suc i) = (f ?q1 \<noteq> (?cv k (Suc (Suc i)) \<and> f (addrQubits ! Suc i) = key_bit k (Suc i)))"
    for k
    using assms(2,4) by (simp add: chain_val.simps [of f selQubit addrQubits ancQubits k "Suc i"])
  have run: "fold exec_gate
           ([CX ?q1 ?q0] @ toffoli True False ?q2 ?x0 ?q0 @ [CX ?q2 ?q1]) ?S
      = ?S(?q0 := ((?S ?q0 \<noteq> ?S ?q1) \<noteq> (?S ?q2 \<and> \<not> ?S ?x0)), ?q1 := (?S ?q1 \<noteq> ?S ?q2))"
    using q01 q20 q2x n0 n1
    by (simp add: exec_toffoli fun_eq_iff)
  show ?thesis
    unfolding run
  proof
    fix q
    show "(?S(?q0 := ((?S ?q0 \<noteq> ?S ?q1) \<noteq> (?S ?q2 \<and> \<not> ?S ?x0)), ?q1 := (?S ?q1 \<noteq> ?S ?q2))) q
        = chain_bits f selQubit addrQubits ancQubits K' i q"
    proof (cases "q \<in> set ancQubits")
      case True
      then obtain j where j: "j < length ancQubits" "q = ancQubits ! j"
        by (auto simp: in_set_conv_nth)
      consider "j = i" | "j = Suc i" | "j < i" | "Suc i < j" by linarith
      then show ?thesis
      proof cases
        case 1
        with j q01 assms(5-8) above [of "Suc (Suc i)"] show ?thesis
          unfolding S0 S1 S2 Sx
          by (simp add: chain_bits_anc [OF d] u0 [of K] u0 [of K'] u1 [of K] u1 [of K']) blast
      next
        case 2
        with j q01 assms(2,4-8) above [of "Suc (Suc i)"] show ?thesis
          unfolding S0 S1 S2 Sx
          by (simp add: chain_bits_anc [OF d] u1 [of K] u1 [of K']) blast
      next
        case 3
        with j d assms(2,4) show ?thesis
          by (simp add: chain_bits_anc nth_eq_iff_index_eq)
      next
        case 4
        with j d assms(2,4) above [of j] show ?thesis
          by (simp add: chain_bits_anc nth_eq_iff_index_eq)
      qed
    next
      case False
      with assms(2,4) have "q \<noteq> ?q0" "q \<noteq> ?q1" by auto
      with False show ?thesis by (simp add: chain_bits_other)
    qed
  qed
qed

lemma incBT_append: "incBT_unbounded xs = Inr r \<Longrightarrow> incBT_unbounded (xs @ ys) = Inr (r @ ys)"
  by (induction xs arbitrary: r) (auto split: if_splits sum.splits)

lemma increment_path:
  assumes "h + 1 < 2 ^ n"
  shows "incrementBooleanTree_unbounded (True # msb_first_bits n h) = Inr (True # msb_first_bits n (h + 1))"
  using incBT_append [OF incBT_bits [OF assms], of "[True]"]
  by (simp add: incrementBooleanTree_unbounded_def)

lemma distance_path:
  assumes "h + 1 < 2 ^ n"
  shows "h_distance (True # msb_first_bits n h) (True # msb_first_bits n (h + 1))
    = 1 + length (takeWhile (\<lambda>b. b) (rev (msb_first_bits n h)))"
  using h_distance_increment [OF incrementBooleanTree_bits [OF assms]]
  by (simp add: h_distance_Cons)

lemma trailing_even:
  "even h \<Longrightarrow> 0 < n \<Longrightarrow> takeWhile (\<lambda>b. b) (rev (msb_first_bits n h)) = []"
  by (cases n) (auto simp: rev_msb_first_bits_Suc)

lemma trailing_one:
  "odd h \<Longrightarrow> even (h div 2) \<Longrightarrow> 1 < n
     \<Longrightarrow> length (takeWhile (\<lambda>b. b) (rev (msb_first_bits n h))) = 1"
  by (cases n; cases "n - 1") (auto simp: rev_msb_first_bits_Suc odd_iff_mod_2_eq_one)

lemma trailing_more:
  "odd h \<Longrightarrow> odd (h div 2) \<Longrightarrow> 1 < n
     \<Longrightarrow> 2 \<le> length (takeWhile (\<lambda>b. b) (rev (msb_first_bits n h)))"
  by (cases n; cases "n - 1") (auto simp: rev_msb_first_bits_Suc odd_iff_mod_2_eq_one)

lemma tree_registers:
  assumes "length anc_q = W" and "length ctl_q = W" and "0 < n" and "n \<le> W"
  shows "nth2last (take n ctl_q) 0 = Inr (rev ctl_q ! (W - n))"
    and "nth2last (sel_q # take n anc_q) 0 = Inr (rev anc_q ! (W - n))"
    and "nth2last (sel_q # take n anc_q) 1 = Inr (chain_ctl W sel_q (rev anc_q) (W - n))"
    and "1 < n \<Longrightarrow> nth2last (sel_q # take n anc_q) 2
           = Inr (chain_ctl W sel_q (rev anc_q) (Suc (W - n)))"
    and "length (sel_q # take n anc_q) = Suc n"
proof -
  from assms show "nth2last (take n ctl_q) 0 = Inr (rev ctl_q ! (W - n))"
    by (simp add: nth2last_def rev_nth Suc_diff_le)
  from assms show "nth2last (sel_q # take n anc_q) 0 = Inr (rev anc_q ! (W - n))"
    by (cases n) (simp_all add: nth2last_def rev_nth Suc_diff_le)
  show "nth2last (sel_q # take n anc_q) 1 = Inr (chain_ctl W sel_q (rev anc_q) (W - n))"
  proof (cases "n = 1")
    case True
    with assms show ?thesis
      by (simp add: nth2last_def chain_ctl_def)
  next
    case False
    with assms have n: "1 < n" and idx: "W - Suc (Suc (W - n)) = n - 2"
      and ne: "Suc (W - n) \<noteq> W" and lt: "Suc (W - n) < W"
      by arith+
    from n obtain m where m: "n = Suc (Suc m)" by (cases n; cases "n - 1") auto
    with assms ne lt idx show ?thesis
      by (simp add: nth2last_def chain_ctl_def rev_nth)
  qed
  from assms show "length (sel_q # take n anc_q) = Suc n" by simp
  assume n: "1 < n"
  show "nth2last (sel_q # take n anc_q) 2
           = Inr (chain_ctl W sel_q (rev anc_q) (Suc (W - n)))"
  proof (cases "n = 2")
    case True
    with assms have "Suc (Suc (W - n)) = W" by arith
    with True assms show ?thesis
      by (simp add: nth2last_def chain_ctl_def)
  next
    case False
    with n assms have idx: "W - Suc (Suc (Suc (W - n))) = n - 3"
      and ne: "Suc (Suc (W - n)) \<noteq> W" and lt: "Suc (Suc (W - n)) < W"
      by arith+
    from n False obtain m where m: "n = Suc (Suc (Suc m))"
      by (cases n; cases "n - 1"; cases "n - 2") auto
    with assms ne lt idx show ?thesis
      by (simp add: nth2last_def chain_ctl_def rev_nth)
  qed
qed

lemma shift_div: "(K::nat) div 2 ^ Suc i = (K div 2 ^ i) div 2"
  using div_mult2_eq [of K "2 ^ i" 2] by (simp add: mult.commute)

lemma stepRight_distance_one:
  assumes "incrementBooleanTree_unbounded bTree = Inr inc" and "h_distance bTree inc = 1"
    and "length ancilla \<noteq> 1"
    and "nth2last ancilla 0 = Inr q0" and "nth2last ancilla 1 = Inr q1"
  shows "stepRight_unbounded circuit bTree qubits ancilla = Inr (circuit @ map Gate [CX q1 q0])"
  using assms unfolding stepRight_unbounded.simps [of circuit bTree qubits ancilla] by simp

lemma stepRight_distance_two:
  assumes "incrementBooleanTree_unbounded bTree = Inr inc" and "h_distance bTree inc = 2"
    and "length ancilla \<noteq> 2"
    and "nth2last ancilla 0 = Inr q0" and "nth2last ancilla 1 = Inr q1"
    and "nth2last ancilla 2 = Inr q2" and "nth2last qubits 0 = Inr x0"
  shows "stepRight_unbounded circuit bTree qubits ancilla
    = Inr (circuit @ map Gate ([CX q1 q0] @ toffoli True False q2 x0 q0 @ [CX q2 q1]))"
  using assms unfolding stepRight_unbounded.simps [of circuit bTree qubits ancilla] by simp

lemma stepRight_distance_more:
  assumes "incrementBooleanTree_unbounded bTree = Inr inc" and "3 \<le> h_distance bTree inc"
    and "nth2last ancilla 0 = Inr q0" and "nth2last ancilla 1 = Inr q1"
    and "nth2last qubits 0 = Inr x0"
    and "stepRight_unbounded (circuit @ map Gate (toffoli True True q1 x0 q0))
           (butlast bTree) (butlast qubits) (butlast ancilla) = Inr (circuit @ map Gate g)"
  shows "stepRight_unbounded circuit bTree qubits ancilla
    = Inr (circuit @ map Gate (g @ toffoli True False q1 x0 q0))"
  using assms unfolding stepRight_unbounded.simps [of circuit bTree qubits ancilla] by (simp add: Let_def)

text \<open>
  \<open>stepRight_unbounded\<close> on the first \<open>n\<close> levels of the tree, where the path is the number \<open>h\<close> and
  \<open>h + 1\<close> still fits: for keys \<open>K\<close> and \<open>K'\<close> whose bits from \<open>W - n\<close> upwards are \<open>h\<close> and \<open>h + 1\<close>,
  the gates it appends turn the chain of \<open>K\<close>, built down to bit \<open>W - n\<close>, into the chain of
  \<open>K'\<close>.
\<close>

lemma stepRight_run:
  assumes "distinct (sel_q # ctl_q @ anc_q)" and "length anc_q = W" and "length ctl_q = W"
    and "n \<le> W" and "h + 1 < 2 ^ n"
    and "K div 2 ^ (W - n) = h" and "K' div 2 ^ (W - n) = h + 1"
  shows "\<exists>g. stepRight_unbounded (circuit :: ('p, 'q) instr list) (True # msb_first_bits n h)
                (take n ctl_q) (sel_q # take n anc_q) = Inr (circuit @ map Gate g)
      \<and> (\<forall>f. fold exec_gate g (chain_bits f sel_q (rev ctl_q) (rev anc_q) K (W - n))
              = chain_bits f sel_q (rev ctl_q) (rev anc_q) K' (W - n))"
  using assms(4-7)
proof (induction n arbitrary: h circuit)
  case 0
  then show ?case by simp
next
  case (Suc m)
  let ?n = "Suc m"
  let ?i = "W - ?n"
  let ?a = "rev ctl_q" and ?b = "rev anc_q"
  let ?q0 = "?b ! ?i" and ?q1 = "chain_ctl W sel_q ?b ?i"
  let ?q2 = "chain_ctl W sel_q ?b (Suc ?i)" and ?x0 = "?a ! ?i"
  let ?bT = "True # msb_first_bits ?n h"
  from assms(1) have d: "distinct (sel_q # ?a @ ?b)" by auto
  from assms(2,3) have len: "length ?b = W" "length ?a = W" by simp_all
  from Suc.prems have i: "?i < W" by simp
  have pos: "0 < ?n" by simp
  note regs = tree_registers [OF assms(2,3) pos Suc.prems(1)]
  have inc: "incrementBooleanTree_unbounded ?bT = Inr (True # msb_first_bits ?n (h + 1))"
    by (rule increment_path [OF Suc.prems(2)])
  note dist = distance_path [OF Suc.prems(2), simplified]
  have par: "(x mod 2 = 1) = odd x" for x :: nat
    by presburger
  have Ki: "key_bit K ?i = odd h" and K'i: "key_bit K' ?i = even h"
    using Suc.prems(3,4) par [of h] par [of "Suc h"] by simp_all
  have KS: "K div 2 ^ Suc ?i = h div 2" and K'S: "K' div 2 ^ Suc ?i = (h + 1) div 2"
    by (simp_all only: shift_div Suc.prems(3,4))
  show ?case
  proof (cases "even h")
    case True
    then have "h_distance ?bT (True # msb_first_bits ?n (h + 1)) = 1"
      by (simp add: dist trailing_even)
    then have run: "stepRight_unbounded circuit ?bT (take ?n ctl_q) (sel_q # take ?n anc_q)
        = Inr (circuit @ map Gate [CX ?q1 ?q0])"
      using regs(5) by (intro stepRight_distance_one [OF inc _ _ regs(2,3)]) simp_all
    from True have "h div 2 = (h + 1) div 2" by simp
    then have "K div 2 ^ Suc ?i = K' div 2 ^ Suc ?i"
      by (simp only: KS K'S)
    then have "K div 2 ^ (?i + 1) = K' div 2 ^ (?i + 1)"
      by (simp only: Suc_eq_plus1 [symmetric])
    then have agree: "\<forall>j > ?i. key_bit K j = key_bit K' j"
      using key_bit_agrees [of K ?i K'] by blast
    have diff: "key_bit K ?i \<noteq> key_bit K' ?i"
      unfolding Ki K'i by simp
    have "exec_gate (CX ?q1 ?q0) (chain_bits f sel_q ?a ?b K ?i)
        = chain_bits f sel_q ?a ?b K' ?i" for f
      by (rule flip_gate_switches [OF d len i diff agree])
    with run show ?thesis
      by (intro exI [of _ "[CX ?q1 ?q0]"]) simp
  next
    case False
    then have h1: "1 \<le> h" by (cases h) auto
    with Suc.prems(2) have m: "0 < m" by (cases m) auto
    with Suc.prems(1) have Si: "Suc ?i < W" and SiW: "Suc ?i = W - m" by simp_all
    then have q1: "?q1 = ?b ! Suc ?i" by (simp add: chain_ctl_def)
    from m have regs2: "nth2last (sel_q # take ?n anc_q) 2 = Inr ?q2"
      using regs(4) by simp
    show ?thesis
    proof (cases "even (h div 2)")
      case True
      with False m have "h_distance ?bT (True # msb_first_bits ?n (h + 1)) = 2"
        by (simp add: dist trailing_one)
      then have run: "stepRight_unbounded circuit ?bT (take ?n ctl_q) (sel_q # take ?n anc_q)
          = Inr (circuit @ map Gate ([CX ?q1 ?q0] @ toffoli True False ?q2 ?x0 ?q0 @ [CX ?q2 ?q1]))"
        using m regs(5)
        by (intro stepRight_distance_two [OF inc _ _ regs(2,3) regs2 regs(1)]) simp_all
      from False True have "odd ((h + 1) div 2)"
        by (auto elim!: oddE evenE)
      with True have "\<not> key_bit K (Suc ?i)" "key_bit K' (Suc ?i)"
        unfolding KS K'S using par [of "h div 2"] par [of "(h + 1) div 2"] by simp_all
      with False have bits: "key_bit K ?i" "\<not> key_bit K (Suc ?i)"
        "\<not> key_bit K' ?i" "key_bit K' (Suc ?i)"
        unfolding Ki K'i by simp_all
      from False True have hh: "h div 2 div 2 = (h + 1) div 2 div 2"
        by (auto elim!: oddE evenE)
      have "K div 2 ^ Suc (Suc ?i) = K' div 2 ^ Suc (Suc ?i)"
        by (simp only: shift_div [of _ "Suc ?i"] KS K'S hh)
      then have "K div 2 ^ (Suc ?i + 1) = K' div 2 ^ (Suc ?i + 1)"
        by (simp only: Suc_eq_plus1 [symmetric])
      then have agree: "\<forall>j > Suc ?i. key_bit K j = key_bit K' j"
        using key_bit_agrees [of K "Suc ?i" K'] by blast
      have "fold exec_gate ([CX ?q1 ?q0] @ toffoli True False ?q2 ?x0 ?q0 @ [CX ?q2 ?q1])
            (chain_bits f sel_q ?a ?b K ?i)
          = chain_bits f sel_q ?a ?b K' ?i" for f
        unfolding q1 by (rule step_distance_two [OF d len Si bits agree])
      with run show ?thesis by blast
    next
      case odd2: False
      let ?h' = "h div 2"
      from False have h2: "h + 1 = 2 * (?h' + 1)" by (auto elim!: oddE)
      with Suc.prems(2) have fits: "?h' + 1 < 2 ^ m" by simp
      from False odd2 m have "3 \<le> h_distance ?bT (True # msb_first_bits ?n (h + 1))"
        using trailing_more [of h ?n] by (simp add: dist)
      then have far: "3 \<le> h_distance ?bT (True # msb_first_bits ?n (h + 1))"
        by simp
      let ?c1 = "circuit @ map Gate (toffoli True True ?q1 ?x0 ?q0)"
      from Suc.prems(1) have mW: "m \<le> W" by simp
      have "K div 2 ^ (W - m) = ?h'" "K' div 2 ^ (W - m) = ?h' + 1"
        using KS K'S h2 unfolding SiW by simp_all
      from Suc.IH [OF mW fits this, of ?c1] obtain g where
        g: "stepRight_unbounded ?c1 (True # msb_first_bits m ?h') (take m ctl_q) (sel_q # take m anc_q)
              = Inr (?c1 @ map Gate g)"
        and s: "\<And>f. fold exec_gate g (chain_bits f sel_q ?a ?b K (W - m))
              = chain_bits f sel_q ?a ?b K' (W - m)"
        by blast
      have cut: "butlast ?bT = True # msb_first_bits m ?h'"
        "butlast (take ?n ctl_q) = take m ctl_q"
        "butlast (sel_q # take ?n anc_q) = sel_q # take m anc_q"
        using Suc.prems(1) assms(2,3) m
        by (auto simp: msb_first_bits_Suc butlast_take)
      let ?g = "toffoli True True ?q1 ?x0 ?q0 @ g @ toffoli True False ?q1 ?x0 ?q0"
      have rec: "stepRight_unbounded ?c1 (butlast ?bT) (butlast (take ?n ctl_q)) (butlast (sel_q # take ?n anc_q))
          = Inr (circuit @ map Gate (toffoli True True ?q1 ?x0 ?q0 @ g))"
        unfolding cut g by simp
      have "stepRight_unbounded circuit ?bT (take ?n ctl_q) (sel_q # take ?n anc_q)
          = Inr (circuit @ map Gate ((toffoli True True ?q1 ?x0 ?q0 @ g) @ toffoli True False ?q1 ?x0 ?q0))"
        by (rule stepRight_distance_more [OF inc far regs(2,3,1) rec])
      then have run: "stepRight_unbounded circuit ?bT (take ?n ctl_q) (sel_q # take ?n anc_q)
          = Inr (circuit @ map Gate ?g)"
        by (simp only: append_assoc)
      have up: "toffoli True True ?q1 ?x0 ?q0 = chain_gate_at W K sel_q ?a ?b ?i"
        and down: "toffoli True False ?q1 ?x0 ?q0 = chain_gate_at W K' sel_q ?a ?b ?i"
        unfolding chain_gate_at_def Ki K'i using False by simp_all
      have "fold exec_gate ?g (chain_bits f sel_q ?a ?b K ?i)
          = chain_bits f sel_q ?a ?b K' ?i" for f
        unfolding up down
        using chain_gate_clears [OF d len i, of K f] chain_gate_builds [OF d len i, of K' f]
          s [of f]
        by (simp add: SiW)
      with run show ?thesis by blast
    qed
  qed
qed

lemma msb_first_bits_inj:
  assumes "k < 2 ^ W" and "e < 2 ^ W"
  shows "msb_first_bits W k = msb_first_bits W e \<longleftrightarrow> k = e"
proof
  assume "msb_first_bits W k = msb_first_bits W e"
  then have "decode (msb_first_bits W k) = decode (msb_first_bits W e)" by simp
  then have "k mod 2 ^ W = e mod 2 ^ W" by (simp only: decode_msb_first_bits)
  with assms show "k = e" by simp
next
  assume "k = e"
  then show "msb_first_bits W k = msb_first_bits W e" by simp
qed

text \<open>
  \<open>applyAndStep_helper_unbounded\<close> from the path of key \<open>k\<close> to the path of key \<open>e\<close>, with the operators
  from \<open>k\<close> on: its circuit fires the payloads of the matching keys among \<open>k, \<dots>, e\<close> and
  turns the chain of \<open>k\<close> into the chain of \<open>e\<close>.
\<close>

lemma applyAndStep_helper_run:
  assumes "distinct (sel_q # ctl_q @ anc_q)" and "length anc_q = W" and "length ctl_q = W"
    and "0 < W" and "set tgt_q \<inter> set (sel_q # ctl_q @ anc_q) = {}"
    and "k \<le> e" and "e < 2 ^ W" and "e < length all_ops"
  shows "\<exists>g. applyAndStep_helper_unbounded (myc :: ('p, 'q) instr list) (drop k all_ops)
                (True # msb_first_bits W k) (True # msb_first_bits W e)
                ctl_q (sel_q # anc_q) tgt_q = Inr (myc @ g)
      \<and> (\<forall>r. exec eff g (chained sel_q (rev ctl_q) (rev anc_q) k 0 r)
             = chained sel_q (rev ctl_q) (rev anc_q) e 0
                 (payloads eff all_ops tgt_q sel_q (rev ctl_q) (rev anc_q) [k..<Suc e] r))"
  using assms(6)
proof (induction "e - k" arbitrary: k myc)
  case 0
  then have ke: "k = e" by simp
  let ?a = "rev ctl_q" and ?b = "rev anc_q"
  from assms(1) have d: "distinct (sel_q # ?a @ ?b)" by auto
  from assms(2,3) have len: "length ?b = W" "length ?a = W" by simp_all
  from assms(5) have t: "set tgt_q \<inter> set (sel_q # ?a @ ?b) = {}" by auto
  have last: "nth2last (sel_q # anc_q) 0 = Inr (?b ! 0)"
    using tree_registers(2) [OF assms(2,3,4) le_refl, of sel_q] assms(2) by simp
  have ops: "drop e all_ops = all_ops ! e # drop (Suc e) all_ops"
    using assms(8) by (simp add: Cons_nth_drop_Suc)
  let ?ap = "Apply (all_ops ! e) (?b ! 0) tgt_q"
  have run: "applyAndStep_helper_unbounded myc (drop k all_ops) (True # msb_first_bits W k)
      (True # msb_first_bits W e) ctl_q (sel_q # anc_q) tgt_q = Inr (myc @ [?ap])"
    unfolding ke ops by (simp add: last)
  have "exec eff [?ap] (chained sel_q ?a ?b k 0 r)
      = chained sel_q ?a ?b e 0 (payloads eff all_ops tgt_q sel_q ?a ?b [k..<Suc e] r)" for r
    unfolding ke using exec_Apply_chained [OF d len assms(4) t, of eff "all_ops ! e" e r]
    by (simp add: payloads_Cons payloads_Nil)
  with run show ?case by blast
next
  case (Suc n)
  then have ke: "k < e" by simp
  let ?a = "rev ctl_q" and ?b = "rev anc_q"
  from assms(1) have d: "distinct (sel_q # ?a @ ?b)" by auto
  from assms(2,3) have len: "length ?b = W" "length ?a = W" by simp_all
  from assms(5) have t: "set tgt_q \<inter> set (sel_q # ?a @ ?b) = {}" by auto
  from ke assms(7,8) have k: "k + 1 < 2 ^ W" "k < 2 ^ W" "k < length all_ops" by simp_all
  have last: "nth2last (sel_q # anc_q) 0 = Inr (?b ! 0)"
    using tree_registers(2) [OF assms(2,3,4) le_refl, of sel_q] assms(2) by simp
  have ops: "drop k all_ops = all_ops ! k # drop (Suc k) all_ops"
    using k(3) by (simp add: Cons_nth_drop_Suc)
  have ne: "True # msb_first_bits W k \<noteq> True # msb_first_bits W e"
    using ke msb_first_bits_inj [OF k(2) assms(7)] by simp
  let ?ap = "Apply (all_ops ! k) (?b ! 0) tgt_q"
  let ?c1 = "myc @ [?ap]"
  from stepRight_run [OF assms(1-3) le_refl k(1), of k "k + 1" ?c1] assms(2,3) obtain g1 where
    g1: "stepRight_unbounded ?c1 (True # msb_first_bits W k) ctl_q (sel_q # anc_q) = Inr (?c1 @ map Gate g1)"
    and s1: "\<And>f. fold exec_gate g1 (chain_bits f sel_q ?a ?b k 0)
               = chain_bits f sel_q ?a ?b (k + 1) 0"
    by auto
  have inc: "incrementBooleanTree_unbounded (True # msb_first_bits W k) = Inr (True # msb_first_bits W (k + 1))"
    by (rule increment_path [OF k(1)])
  from Suc.hyps(2) ke have "n = e - (k + 1)" "k + 1 \<le> e" by simp_all
  from Suc.hyps(1) [OF this, of "?c1 @ map Gate g1"] obtain g2 where
    g2: "applyAndStep_helper_unbounded (?c1 @ map Gate g1) (drop (k + 1) all_ops)
           (True # msb_first_bits W (k + 1)) (True # msb_first_bits W e)
           ctl_q (sel_q # anc_q) tgt_q = Inr ((?c1 @ map Gate g1) @ g2)"
    and s2: "\<And>r. exec eff g2 (chained sel_q ?a ?b (k + 1) 0 r)
             = chained sel_q ?a ?b e 0
                 (payloads eff all_ops tgt_q sel_q ?a ?b [k + 1..<Suc e] r)"
    by blast
  have run: "applyAndStep_helper_unbounded myc (drop k all_ops) (True # msb_first_bits W k)
      (True # msb_first_bits W e) ctl_q (sel_q # anc_q) tgt_q
      = Inr (myc @ ([?ap] @ map Gate g1 @ g2))"
    unfolding ops using ne g2 by (simp add: last g1 inc)
  have sem: "exec eff ([?ap] @ map Gate g1 @ g2) (chained sel_q ?a ?b k 0 r)
      = chained sel_q ?a ?b e 0 (payloads eff all_ops tgt_q sel_q ?a ?b [k..<Suc e] r)" for r
  proof -
    let ?r1 = "if chain_val (bits r) sel_q ?a ?b k 0
               then fire eff (all_ops ! k) tgt_q r else r"
    have "exec eff ([?ap] @ map Gate g1 @ g2) (chained sel_q ?a ?b k 0 r)
        = exec eff g2 (exec eff (map Gate g1) (exec eff [?ap] (chained sel_q ?a ?b k 0 r)))"
      by (simp only: exec_append)
    also have "exec eff [?ap] (chained sel_q ?a ?b k 0 r) = chained sel_q ?a ?b k 0 ?r1"
      by (rule exec_Apply_chained [OF d len assms(4) t])
    also have "exec eff (map Gate g1) (chained sel_q ?a ?b k 0 ?r1)
        = chained sel_q ?a ?b (k + 1) 0 ?r1"
      by (rule exec_gates_chained [OF s1])
    also have "exec eff g2 (chained sel_q ?a ?b (k + 1) 0 ?r1)
        = chained sel_q ?a ?b e 0 (payloads eff all_ops tgt_q sel_q ?a ?b [k + 1..<Suc e] ?r1)"
      by (rule s2)
    also have "payloads eff all_ops tgt_q sel_q ?a ?b [k + 1..<Suc e] ?r1
        = payloads eff all_ops tgt_q sel_q ?a ?b [k..<Suc e] r"
      using ke by (simp add: upt_conv_Cons [of k] payloads_Cons)
    finally show ?thesis .
  qed
  from run sem show ?case by blast
qed

text \<open>
  The tree strategy for a non-empty range of keys below \<open>2 ^ W\<close>: on every register its
  circuit fires the payloads of the matching keys and changes nothing else.
\<close>

lemma decompose_tree_run:
  assumes "distinct (sel_q # ctl_q @ anc_q)" and "length anc_q = length ctl_q"
    and "set tgt_q \<inter> set (sel_q # ctl_q @ anc_q) = {}"
    and "pos2 \<le> 2 ^ length ctl_q" and "pos2 \<le> length all_ops"
    and "pos1 < pos2" and "0 < length ctl_q"
  shows "\<exists>circuit :: ('p, 'q) instr list.
            decompose_tree_unbounded all_ops pos1 pos2 sel_q ctl_q anc_q tgt_q = Inr circuit
          \<and> (\<forall>r. exec eff circuit r
                 = payloads eff all_ops tgt_q sel_q (rev ctl_q) (rev anc_q) [pos1..<pos2] r)"
proof -
  let ?W = "length ctl_q"
  let ?a = "rev ctl_q" and ?b = "rev anc_q"
  let ?e = "pos2 - 1"
  from assms(4,6) have k: "pos1 < 2 ^ ?W" and e: "?e < 2 ^ ?W" and ke: "pos1 \<le> ?e" by simp_all
  from assms(5,6) have eo: "?e < length all_ops" by simp
  from assms(6) have Se: "Suc ?e = pos2" and ie: "int pos2 - 1 = int ?e" by simp_all
  have start: "constructBooleanTree (int pos1) ?W = msb_first_bits ?W pos1"
    by (rule constructBooleanTree_in_range [OF assms(7) k])
  have end_: "constructBooleanTree (int pos2 - 1) ?W = msb_first_bits ?W ?e"
    unfolding ie by (rule constructBooleanTree_in_range [OF assms(7) e])
  from walkDown_run [OF assms(1,2) refl assms(7), of pos1] obtain w1 where
    w1: "walkDown_unbounded ([True] @ msb_first_bits ?W pos1) ([sel_q] @ ctl_q) anc_q = Inr w1"
    and s1: "\<And>f. fold exec_gate w1 (chain_bits f sel_q ?a ?b pos1 ?W)
              = chain_bits f sel_q ?a ?b pos1 0"
    by blast
  from walkDown_run [OF assms(1,2) refl assms(7), of ?e] obtain w2 where
    w2: "walkDown_unbounded ([True] @ msb_first_bits ?W ?e) ([sel_q] @ ctl_q) anc_q = Inr w2"
    and ok2: "\<forall>x \<in> set w2. gate_ok x"
    and s2: "\<And>f. fold exec_gate w2 (chain_bits f sel_q ?a ?b ?e ?W)
              = chain_bits f sel_q ?a ?b ?e 0"
    by blast
  from applyAndStep_helper_run [OF assms(1,2) refl assms(7,3) ke e eo, of "[]" eff]
  obtain g where
    g: "applyAndStep_helper_unbounded ([] :: ('p, 'q) instr list) (drop pos1 all_ops)
          (True # msb_first_bits ?W pos1) (True # msb_first_bits ?W ?e)
          ctl_q (sel_q # anc_q) tgt_q = Inr g"
    and sg: "\<And>r. exec eff g (chained sel_q ?a ?b pos1 0 r)
             = chained sel_q ?a ?b ?e 0
                 (payloads eff all_ops tgt_q sel_q ?a ?b [pos1..<pos2] r)"
    unfolding Se by auto
  have run: "decompose_tree_unbounded all_ops pos1 pos2 sel_q ctl_q anc_q tgt_q
      = Inr (map Gate w1 @ g @ map Gate (inverse w2))"
    using w1 w2 g
    by (simp add: decompose_tree_unbounded_def Let_def start end_ applyAndStep_unbounded_def)
  have up: "fold exec_gate (inverse w2) (chain_bits f sel_q ?a ?b ?e 0)
      = chain_bits f sel_q ?a ?b ?e (length ?b)" for f
  proof -
    have "fold exec_gate (inverse w2) (fold exec_gate w2 (chain_bits f sel_q ?a ?b ?e ?W))
        = chain_bits f sel_q ?a ?b ?e ?W"
      by (rule fold_inverse [OF ok2])
    then show ?thesis
      unfolding s2 using assms(2) by simp
  qed
  have down: "fold exec_gate w1 (chain_bits f sel_q ?a ?b pos1 (length ?b))
      = chain_bits f sel_q ?a ?b pos1 0" for f
    using s1 [of f] assms(2) by simp
  have sem: "exec eff (map Gate w1 @ g @ map Gate (inverse w2)) r
      = payloads eff all_ops tgt_q sel_q ?a ?b [pos1..<pos2] r" for r
  proof -
    let ?R = "payloads eff all_ops tgt_q sel_q ?a ?b [pos1..<pos2] r"
    have "exec eff (map Gate w1 @ g @ map Gate (inverse w2)) r
        = exec eff (map Gate (inverse w2)) (exec eff g (exec eff (map Gate w1) r))"
      by (simp only: exec_append)
    also have "exec eff (map Gate w1) r = chained sel_q ?a ?b pos1 0 r"
      using exec_gates_chained [OF down, of eff r] by (simp only: chained_top)
    also have "exec eff g (chained sel_q ?a ?b pos1 0 r) = chained sel_q ?a ?b ?e 0 ?R"
      by (rule sg)
    also have "exec eff (map Gate (inverse w2)) (chained sel_q ?a ?b ?e 0 ?R)
        = chained sel_q ?a ?b ?e (length ?b) ?R"
      by (rule exec_gates_chained [OF up])
    finally show ?thesis by (simp only: chained_top)
  qed
  from run sem show ?thesis by blast
qed

lemma applyAndStep_helper_depth:
  "applyAndStep_helper d myc ops sbT ebT qbs anc tgt = Inl RecursionError
   \<or> applyAndStep_helper d myc ops sbT ebT qbs anc tgt
       = applyAndStep_helper_unbounded myc ops sbT ebT qbs anc tgt"
proof (induction d myc ops sbT ebT qbs anc tgt rule: applyAndStep_helper.induct)
  case (1 myc ops sbT ebT qbs anc tgt)
  then show ?case by simp
next
  case (2 d myc sbT ebT qbs anc tgt)
  then show ?case by simp
next
  case (3 d myc op ops sbT ebT qbs anc tgt)
  show ?case
  proof (cases "nth2last anc 0")
    case (Inl e)
    then show ?thesis by simp
  next
    case a: (Inr a)
    show ?thesis
    proof (cases "sbT = ebT")
      case True
      with a show ?thesis by simp
    next
      case ne: False
      let ?c = "myc @ [Apply op a tgt]"
      from stepRight_depth [of d ?c sbT qbs anc] show ?thesis
      proof
        assume "stepRight d ?c sbT qbs anc = Inl RecursionError"
        with a ne show ?thesis by simp
      next
        assume s: "stepRight d ?c sbT qbs anc = stepRight_unbounded ?c sbT qbs anc"
        show ?thesis
        proof (cases "stepRight_unbounded ?c sbT qbs anc")
          case (Inl e)
          with a ne s show ?thesis by simp
        next
          case myc': (Inr myc')
          show ?thesis
          proof (cases "incrementBooleanTree d sbT = Inl RecursionError")
            case True
            with a ne s myc' show ?thesis by simp
          next
            case False
            then have i: "incrementBooleanTree d sbT = incrementBooleanTree_unbounded sbT"
              by (simp add: incrementBooleanTree_depth split: if_splits)
            show ?thesis
            proof (cases "incrementBooleanTree_unbounded sbT")
              case (Inl e)
              with a ne s myc' i show ?thesis by simp
            next
              case (Inr sbT')
              with a ne s myc' i "3.IH" [OF a ne _ _, of myc' sbT'] show ?thesis
                by auto
            qed
          qed
        qed
      qed
    qed
  qed
qed


lemma path_neq:
  assumes "k < e" and "e < 2 ^ W"
  shows "True # msb_first_bits W k \<noteq> True # msb_first_bits W e"
proof -
  from assms have "k < 2 ^ W" "k \<noteq> e" by simp_all
  with assms(2) show ?thesis
    by (simp add: msb_first_bits_inj)
qed

lemma increment_path_depth:
  assumes "k + 1 < 2 ^ W" and "W + 3 \<le> d"
  shows "incrementBooleanTree d (True # msb_first_bits W k) = Inr (True # msb_first_bits W (k + 1))"
  using assms(2) trailing_run_le [of "True # msb_first_bits W k"] increment_path [OF assms(1)]
  by (simp add: incrementBooleanTree_depth)

lemma applyAndStep_helper_enough:
  assumes "e < 2 ^ W" and "k \<le> e" and "(e - k) + W + 4 \<le> d"
  shows "applyAndStep_helper d (myc :: ('p, 'q) instr list) (drop k all_ops)
           (True # msb_first_bits W k) (True # msb_first_bits W e) qbs anc tgt
       = applyAndStep_helper_unbounded myc (drop k all_ops)
           (True # msb_first_bits W k) (True # msb_first_bits W e) qbs anc tgt"
  using assms(2,3)
proof (induction "e - k" arbitrary: k myc d)
  case 0
  then obtain d' where d: "d = Suc d'" by (cases d) auto
  from 0 have "k = e" by simp
  then show ?case
    by (cases "drop e all_ops") (simp_all add: d split: sum.splits)
next
  case (Suc n)
  then obtain d' where d: "d = Suc d'" by (cases d) auto
  from Suc.hyps(2) Suc.prems assms(1) have ke: "k < e" and k1: "k + 1 < 2 ^ W"
    and d': "W + 4 \<le> d'" "(e - Suc k) + W + 4 \<le> d'" and n: "n = e - Suc k" "Suc k \<le> e"
    by (simp_all add: d)
  let ?s = "True # msb_first_bits W k"
  note ne = path_neq [OF ke assms(1)]
  have st: "stepRight d' c ?s qbs anc = stepRight_unbounded c ?s qbs anc"
    for c :: "('p, 'q) instr list"
    using d'(1) by (intro stepRight_enough) simp
  have inc: "incrementBooleanTree d' ?s = Inr (True # msb_first_bits W (Suc k))"
    using increment_path_depth [OF k1, of d'] d'(1) by simp
  have inc_u: "incrementBooleanTree_unbounded ?s = Inr (True # msb_first_bits W (Suc k))"
    using increment_path [OF k1] by simp
  note IH = Suc.hyps(1) [OF n(1) n(2) d'(2)]
  show ?case
  proof (cases "drop k all_ops")
    case Nil
    then show ?thesis by (simp add: d)
  next
    case (Cons op rest)
    then have rest: "rest = drop (Suc k) all_ops"
      by (metis drop_Suc list.sel(3) tl_drop)
    show ?thesis
      unfolding Cons d rest
      by (simp add: ne st inc inc_u IH split: sum.splits)
  qed
qed

lemma applyAndStep_helper_overflow:
  assumes "distinct (sel_q # ctl_q @ anc_q)" and "length anc_q = W" and "length ctl_q = W"
    and "0 < W" and "set tgt_q \<inter> set (sel_q # ctl_q @ anc_q) = {}"
    and "k \<le> e" and "e < 2 ^ W" and "e < length all_ops" and "d \<le> e - k"
  shows "applyAndStep_helper d (myc :: ('p, 'q) instr list) (drop k all_ops)
           (True # msb_first_bits W k) (True # msb_first_bits W e)
           ctl_q (sel_q # anc_q) tgt_q = Inl RecursionError"
  using assms(6,9)
proof (induction d arbitrary: k myc)
  case 0
  then show ?case by simp
next
  case (Suc d)
  then have ke: "k < e" and k1: "k + 1 < 2 ^ W" and n: "Suc k \<le> e" "d \<le> e - Suc k"
    using assms(7) by simp_all
  let ?s = "True # msb_first_bits W k" and ?e = "True # msb_first_bits W e"
  note ne = path_neq [OF ke assms(7), simplified]
  from ke assms(8) have ops: "drop k all_ops = all_ops ! k # drop (Suc k) all_ops"
    by (simp add: Cons_nth_drop_Suc)
  have inc_u: "incrementBooleanTree_unbounded ?s = Inr (True # msb_first_bits W (Suc k))"
    using increment_path [OF k1] by simp
  from applyAndStep_helper_run [OF assms(1-5) Suc.prems(1) assms(7,8), of myc "\<lambda>p bs. bs"]
  obtain g where g: "applyAndStep_helper_unbounded myc (drop k all_ops) ?s ?e
      ctl_q (sel_q # anc_q) tgt_q = Inr (myc @ g)"
    by blast
  then obtain a myc' where a: "nth2last (sel_q # anc_q) 0 = Inr a"
    and myc': "stepRight_unbounded (myc @ [Apply (all_ops ! k) a tgt_q]) ?s ctl_q (sel_q # anc_q)
                = Inr myc'"
    unfolding ops using ne by (auto simp: inc_u split: sum.splits)
  note IH = Suc.IH [OF n, of myc']
  from stepRight_depth [of d "myc @ [Apply (all_ops ! k) a tgt_q]" ?s ctl_q "sel_q # anc_q"]
  show ?case
  proof
    assume "stepRight d (myc @ [Apply (all_ops ! k) a tgt_q]) ?s ctl_q (sel_q # anc_q)
        = Inl RecursionError"
    then show ?thesis
      unfolding ops by (simp add: a ne)
  next
    assume s: "stepRight d (myc @ [Apply (all_ops ! k) a tgt_q]) ?s ctl_q (sel_q # anc_q)
        = stepRight_unbounded (myc @ [Apply (all_ops ! k) a tgt_q]) ?s ctl_q (sel_q # anc_q)"
    show ?thesis
    proof (cases "incrementBooleanTree d ?s = Inl RecursionError")
      case True
      then show ?thesis
        unfolding ops by (simp add: a ne s myc')
    next
      case False
      then have "incrementBooleanTree d ?s = Inr (True # msb_first_bits W (Suc k))"
        using inc_u by (simp add: incrementBooleanTree_depth split: if_splits)
      then show ?thesis
        unfolding ops by (simp add: a ne s myc' IH)
    qed
  qed
qed

lemma decompose_tree_enough:
  assumes "0 < length ctl_q" and "pos1 < pos2" and "pos2 \<le> 2 ^ length ctl_q"
    and "pos2 - pos1 + length ctl_q + 4 \<le> d"
  shows "decompose_tree d all_ops pos1 pos2 sel_q ctl_q anc_q tgt_q
    = decompose_tree_unbounded all_ops pos1 pos2 sel_q ctl_q anc_q tgt_q"
proof -
  let ?W = "length ctl_q"
  let ?e = "pos2 - 1"
  from assms(2,3) have k: "pos1 < 2 ^ ?W" and e: "?e < 2 ^ ?W" and ke: "pos1 \<le> ?e" by simp_all
  from assms(2) have ie: "int pos2 - 1 = int ?e" by simp
  from assms(2,4) obtain d' where d: "d = Suc d'" and d': "(?e - pos1) + ?W + 4 \<le> d'"
    by (cases d) auto
  have start: "constructBooleanTree (int pos1) ?W = msb_first_bits ?W pos1"
    by (rule constructBooleanTree_in_range [OF assms(1) k])
  have end_: "constructBooleanTree (int pos2 - 1) ?W = msb_first_bits ?W ?e"
    unfolding ie by (rule constructBooleanTree_in_range [OF assms(1) e])
  have w: "walkDown d (True # msb_first_bits ?W j) qs anc
      = walkDown_unbounded (True # msb_first_bits ?W j) qs anc" for j and qs anc :: "'a list"
    using assms(4) by (intro walkDown_enough) simp_all
  have h: "applyAndStep d (drop pos1 all_ops) (True # msb_first_bits ?W pos1)
        (True # msb_first_bits ?W ?e) qbs anc tgt
      = applyAndStep_unbounded (drop pos1 all_ops) (True # msb_first_bits ?W pos1)
        (True # msb_first_bits ?W ?e) qbs anc tgt" for qbs anc tgt :: "'a list"
    unfolding applyAndStep_def applyAndStep_unbounded_def d
    using applyAndStep_helper_enough [OF e ke d'] by simp
  show ?thesis
    unfolding decompose_tree_def decompose_tree_unbounded_def Let_def start end_
      append_Cons append_Nil w h ..
qed

lemma decompose_tree_overflow:
  assumes "distinct (sel_q # ctl_q @ anc_q)" and "length anc_q = length ctl_q"
    and "set tgt_q \<inter> set (sel_q # ctl_q @ anc_q) = {}"
    and "pos2 \<le> 2 ^ length ctl_q" and "pos2 \<le> length all_ops"
    and "pos1 < pos2" and "0 < length ctl_q" and "d \<le> pos2 - pos1"
  shows "decompose_tree d all_ops pos1 pos2 sel_q ctl_q anc_q tgt_q = Inl RecursionError"
proof (cases d)
  case 0
  then show ?thesis
    by (simp add: decompose_tree_def walkDown_def)
next
  case (Suc d')
  let ?W = "length ctl_q"
  let ?e = "pos2 - 1"
  from assms(4,6) have k: "pos1 < 2 ^ ?W" and e: "?e < 2 ^ ?W" and ke: "pos1 \<le> ?e" by simp_all
  from assms(5,6) have eo: "?e < length all_ops" by simp
  from assms(6) have ie: "int pos2 - 1 = int ?e" by simp
  from assms(6,8) Suc have d': "d' \<le> ?e - pos1" by simp
  have start: "constructBooleanTree (int pos1) ?W = msb_first_bits ?W pos1"
    by (rule constructBooleanTree_in_range [OF assms(7) k])
  have end_: "constructBooleanTree (int pos2 - 1) ?W = msb_first_bits ?W ?e"
    unfolding ie by (rule constructBooleanTree_in_range [OF assms(7) e])
  have h: "applyAndStep d (drop pos1 all_ops) (True # msb_first_bits ?W pos1)
        (True # msb_first_bits ?W ?e) ctl_q (sel_q # anc_q) tgt_q = Inl RecursionError"
    unfolding applyAndStep_def Suc
    using applyAndStep_helper_overflow [OF assms(1,2) refl assms(7,3) ke e eo d'] by simp
  from walkDown_depth [of d "True # msb_first_bits ?W pos1" "sel_q # ctl_q" anc_q]
  show ?thesis
  proof
    assume "walkDown d (True # msb_first_bits ?W pos1) (sel_q # ctl_q) anc_q = Inl RecursionError"
    then show ?thesis
      by (simp add: decompose_tree_def start end_)
  next
    assume "walkDown d (True # msb_first_bits ?W pos1) (sel_q # ctl_q) anc_q
      = walkDown_unbounded (True # msb_first_bits ?W pos1) (sel_q # ctl_q) anc_q"
    with walkDown_run [OF assms(1,2) refl assms(7), of pos1] h show ?thesis
      by (auto simp: decompose_tree_def start end_)
  qed
qed

lemma decompose_tree_depth:
  "decompose_tree d all_ops pos1 pos2 sel_q ctl_q anc_q tgt_q = Inl RecursionError
   \<or> decompose_tree d all_ops pos1 pos2 sel_q ctl_q anc_q tgt_q
      = decompose_tree_unbounded all_ops pos1 pos2 sel_q ctl_q anc_q tgt_q"
proof -
  let ?s = "[True] @ constructBooleanTree (int pos1) (length ctl_q)"
  let ?e = "[True] @ constructBooleanTree (int pos2 - 1) (length ctl_q)"
  have a: "applyAndStep d (drop pos1 all_ops) ?s ?e ctl_q ([sel_q] @ anc_q) tgt_q
        = Inl RecursionError
      \<or> applyAndStep d (drop pos1 all_ops) ?s ?e ctl_q ([sel_q] @ anc_q) tgt_q
        = applyAndStep_unbounded (drop pos1 all_ops) ?s ?e ctl_q ([sel_q] @ anc_q) tgt_q"
    using applyAndStep_helper_depth [of "d - 1" "[]" "drop pos1 all_ops" ?s ?e ctl_q
        "[sel_q] @ anc_q" tgt_q]
    by (cases d) (auto simp: applyAndStep_def applyAndStep_unbounded_def)
  from walkDown_depth [of d ?s "[sel_q] @ ctl_q" anc_q]
    walkDown_depth [of d ?e "[sel_q] @ ctl_q" anc_q] a
  show ?thesis
    unfolding decompose_tree_def decompose_tree_unbounded_def Let_def
    by (auto split: sum.splits)
qed

text \<open>
  C3 as stated fails: the walk loops over the keys, while \<^verbatim>\<open>applyAndStep_helper\<close> calls
  itself once for every key. For the 1024 keys of ten address bits the walk returns a
  circuit and the tree strategy raises \<^verbatim>\<open>RecursionError\<close> under the default limit of
  1000 frames, so there is no tree circuit to compare.
\<close>

theorem tree_recursion_limit_counterexample:
  "(\<exists>cw. decompose_walk [0..<1024] 0 1024 (0::nat) [1..<11] [11..<21] [21] = Inr cw)
   \<and> decompose_tree 1000 [0..<1024] 0 1024 (0::nat) [1..<11] [11..<21] [21]
       = Inl RecursionError"
proof -
  have 1: "distinct ((0::nat) # [1..<11] @ [11..<21])" by simp
  have 2: "length [11..<21] = length [1..<11]" by simp
  have 3: "set [21 :: nat] \<inter> set (0 # [1..<11] @ [11..<21]) = {}" by simp
  have 4: "(1024 :: nat) \<le> 2 ^ length [1..<11]" by simp
  have 5: "1024 \<le> length [0..<1024]" by simp
  have 6: "(0::nat) < 1024" by simp
  have 7: "0 < length [1..<11]" by simp
  have 8: "(1000::nat) \<le> 1024 - 0" by simp
  have 9: "(0::nat) < 1024 \<longrightarrow> 0 < length [1..<11]" by simp
  from applyAndWalk_run [OF 1 2 3 4 5 9, of "\<lambda>p bs. bs"]
  have "\<exists>cw. decompose_walk [0..<1024] 0 1024 (0::nat) [1..<11] [11..<21] [21] = Inr cw"
    unfolding decompose_walk_def by blast
  with decompose_tree_overflow [OF 1 2 3 4 5 6 7 8] show ?thesis by blast
qed

text \<open>
  C3 amended: for every range of keys \<open>pos1 < pos2 \<le> 2 ^ W\<close>, the ranges that
  \<^verbatim>\<open>_decompose_\<close> computes, and every table with an operator for each key, if there is
  an address bit then the walk returns a circuit, and the tree strategy either raises
  \<^verbatim>\<open>RecursionError\<close> or returns a circuit that has the same effect as the walk's on
  every register (whatever its address, enable and ancilla bits): the same final bits
  and the same payloads fired in the same order. The tree strategy returns when the
  stack has room for \<open>pos2 - pos1 + W + 4\<close> frames of its recursive functions, and
  raises \<^verbatim>\<open>RecursionError\<close> when the room is not more than the number of keys. Without
  an address bit both raise \<^verbatim>\<open>IndexError\<close>.
\<close>

theorem nonempty_range_strategies_agree:
  assumes "distinct (sel_q # ctl_q @ anc_q)" and "length anc_q = length ctl_q"
    and "set tgt_q \<inter> set (sel_q # ctl_q @ anc_q) = {}"
    and "pos2 \<le> 2 ^ length ctl_q" and "pos2 \<le> length operators"
    and "pos1 < pos2"
  shows "(0 < length ctl_q \<longrightarrow>
           (\<exists>cw. decompose_walk operators pos1 pos2 sel_q ctl_q anc_q tgt_q = Inr cw
               \<and> (decompose_tree d operators pos1 pos2 sel_q ctl_q anc_q tgt_q
                     = Inl RecursionError
                  \<or> (\<exists>ct. decompose_tree d operators pos1 pos2 sel_q ctl_q anc_q tgt_q = Inr ct
                        \<and> (\<forall>r. exec eff cw r = exec eff ct r)))))
       \<and> (0 < length ctl_q \<and> pos2 - pos1 + length ctl_q + 4 \<le> d \<longrightarrow>
           (\<exists>cw ct. decompose_walk operators pos1 pos2 sel_q ctl_q anc_q tgt_q = Inr cw
               \<and> decompose_tree d operators pos1 pos2 sel_q ctl_q anc_q tgt_q = Inr ct
               \<and> (\<forall>r. exec eff cw r = exec eff ct r)))
       \<and> (0 < length ctl_q \<and> d \<le> pos2 - pos1 \<longrightarrow>
           decompose_tree d operators pos1 pos2 sel_q ctl_q anc_q tgt_q = Inl RecursionError)
       \<and> (length ctl_q = 0 \<and> 0 < d \<longrightarrow>
            decompose_walk operators pos1 pos2 sel_q ctl_q anc_q tgt_q = Inl IndexError
          \<and> decompose_tree d operators pos1 pos2 sel_q ctl_q anc_q tgt_q = Inl IndexError)"
proof -
  let ?walk = "decompose_walk operators pos1 pos2 sel_q ctl_q anc_q tgt_q"
  let ?tree = "decompose_tree d operators pos1 pos2 sel_q ctl_q anc_q tgt_q"
  let ?tree_u = "decompose_tree_unbounded operators pos1 pos2 sel_q ctl_q anc_q tgt_q"
  have both: "\<exists>cw ct. ?walk = Inr cw \<and> ?tree_u = Inr ct \<and> (\<forall>r. exec eff cw r = exec eff ct r)"
    if W: "0 < length ctl_q"
  proof -
    from W have "pos1 < pos2 \<longrightarrow> 0 < length ctl_q" by simp
    from applyAndWalk_run [OF assms(1-5) this, of eff] obtain cw where
      cw: "?walk = Inr cw"
      and sw: "\<And>r. exec eff cw r
         = payloads eff operators tgt_q sel_q (rev ctl_q) (rev anc_q) [pos1..<pos2] r"
      unfolding decompose_walk_def by blast
    from decompose_tree_run [OF assms W, of eff] obtain ct where
      ct: "?tree_u = Inr ct"
      and st: "\<And>r. exec eff ct r
         = payloads eff operators tgt_q sel_q (rev ctl_q) (rev anc_q) [pos1..<pos2] r"
      by blast
    from cw ct sw st show ?thesis by simp
  qed
  have 1: "\<exists>cw. ?walk = Inr cw
      \<and> (?tree = Inl RecursionError \<or> (\<exists>ct. ?tree = Inr ct \<and> (\<forall>r. exec eff cw r = exec eff ct r)))"
    if "0 < length ctl_q"
    using both [OF that] decompose_tree_depth [of d operators pos1 pos2 sel_q ctl_q anc_q tgt_q]
    by auto
  have 2: "\<exists>cw ct. ?walk = Inr cw \<and> ?tree = Inr ct \<and> (\<forall>r. exec eff cw r = exec eff ct r)"
    if "0 < length ctl_q \<and> pos2 - pos1 + length ctl_q + 4 \<le> d"
    using both that decompose_tree_enough [OF _ assms(6,4), of d operators sel_q anc_q tgt_q]
    by simp
  have 3: "?tree = Inl RecursionError" if "0 < length ctl_q \<and> d \<le> pos2 - pos1"
    using that decompose_tree_overflow [OF assms] by simp
  have 4: "?walk = Inl IndexError \<and> ?tree = Inl IndexError" if "length ctl_q = 0 \<and> 0 < d"
  proof -
    from that assms(2,4,6) have z: "ctl_q = []" "anc_q = []" "pos1 = 0" "pos2 = Suc 0" by auto
    from that obtain d' where d: "d = Suc d'" by (cases d) auto
    have "?walk = Inl IndexError"
      unfolding z decompose_walk_def by (rule applyAndWalk_no_address_bits)
    moreover have "?tree = Inl IndexError"
      unfolding z d by (simp add: decompose_tree_def walkDown_def)
    ultimately show ?thesis by simp
  qed
  from 1 2 3 4 show ?thesis by blast
qed

theorem nonempty_range_strategies_agree_witness:
  "distinct ((0::nat) # [1, 2] @ [3, 4]) \<and> length [3, 4 :: nat] = length [1, 2 :: nat]
   \<and> set [5 :: nat] \<inter> set (0 # [1, 2] @ [3, 4]) = {}
   \<and> (4::nat) \<le> 2 ^ length [1, 2 :: nat] \<and> 4 \<le> length [100, 101, 102, 103 :: nat]
   \<and> (0::nat) < 4 \<and> 0 < length [1, 2 :: nat] \<and> 4 - 0 + length [1, 2 :: nat] + 4 \<le> (10::nat)
   \<and> (\<exists>cw ct. decompose_walk [100, 101, 102, 103 :: nat] 0 4 (0::nat) [1, 2] [3, 4] [5] = Inr cw
         \<and> decompose_tree 10 [100, 101, 102, 103 :: nat] 0 4 (0::nat) [1, 2] [3, 4] [5] = Inr ct
         \<and> (\<forall>r. exec (\<lambda>p bs. map Not bs) cw r = exec (\<lambda>p bs. map Not bs) ct r))
   \<and> decompose_tree 4 [100, 101, 102, 103 :: nat] 0 4 (0::nat) [1, 2] [3, 4] [5]
       = Inl RecursionError"
  using nonempty_range_strategies_agree [of "0 :: nat" "[1, 2]" "[3, 4]" "[5]" 4
      "[100, 101, 102, 103 :: nat]" 0 10 "\<lambda>p bs. map Not bs"]
    nonempty_range_strategies_agree [of "0 :: nat" "[1, 2]" "[3, 4]" "[5]" 4
      "[100, 101, 102, 103 :: nat]" 0 4 "\<lambda>p bs. map Not bs"]
  by simp

end
